theory Spec2Isabelle
  imports Complex_Main "HOL-Library.Sublist"
begin

section \<open>Strings of the registry compiler\<close>

text \<open>
  The compiler (tools/registry_compile.py) works on Python \<open>str\<close> values: sequences of
  Unicode code points. A code point is a natural number and a string is a list of them;
  \<open>ascii\<close> turns a literal of the source into such a list.
\<close>

type_synonym cp = nat
type_synonym ustr = "cp list"

definition ascii :: "string \<Rightarrow> ustr" where
  "ascii s = map of_char s"

text \<open>
  The white space of \<open>str.strip()\<close>, \<open>str.isspace()\<close> and of \<open>\s\<close> in a \<open>str\<close> pattern
  is one and the same set of code points: TAB..CR, FS..US, SPACE, NEL, NBSP, U+1680,
  U+2000..U+200A, U+2028, U+2029, U+202F, U+205F and U+3000.
\<close>

definition is_space :: "cp \<Rightarrow> bool" where
  "is_space c =
     ((9 \<le> c \<and> c \<le> 13) \<or> (28 \<le> c \<and> c \<le> 32) \<or> c = 133 \<or> c = 160 \<or> c = 5760 \<or>
      (8192 \<le> c \<and> c \<le> 8202) \<or> c = 8232 \<or> c = 8233 \<or> c = 8239 \<or> c = 8287 \<or>
      c = 12288)"

definition lstrip :: "ustr \<Rightarrow> ustr" where
  "lstrip s = dropWhile is_space s"

definition rstrip :: "ustr \<Rightarrow> ustr" where
  "rstrip s = rev (dropWhile is_space (rev s))"

definition strip :: "ustr \<Rightarrow> ustr" where
  "strip s = rstrip (lstrip s)"

text \<open>\<open>kw in s\<close>: the keyword occurs in the string as a contiguous run.\<close>

fun contains :: "ustr \<Rightarrow> ustr \<Rightarrow> bool" where
  "contains kw [] = (kw = [])"
| "contains kw (c # t) = (prefix kw (c # t) \<or> contains kw t)"

text \<open>
  \<open>str.lower()\<close> maps each code point on its own, but for the capital sigma, whose image
  depends on its neighbours. On ASCII it sends \<open>A..Z\<close> to \<open>a..z\<close> and leaves the rest;
  beyond ASCII it follows the Unicode character database, which is no part of the
  repository: the table \<open>U\<close> gives, for a string and a position holding a code point of
  128 or more, the code points that replace it.
\<close>

definition ascii_lower :: "cp \<Rightarrow> cp" where
  "ascii_lower c = (if 65 \<le> c \<and> c \<le> 90 then c + 32 else c)"

definition lower :: "(ustr \<Rightarrow> nat \<Rightarrow> ustr) \<Rightarrow> ustr \<Rightarrow> ustr" where
  "lower U s =
     concat (map (\<lambda>i. if s ! i < 128 then [ascii_lower (s ! i)] else U s i) [0..<length s])"

section \<open>Suit classifier and frequency mapper\<close>

definition suit :: "(ustr \<Rightarrow> nat \<Rightarrow> ustr) \<Rightarrow> ustr \<Rightarrow> ustr" where
  "suit U n =
     (let s = lower U n in
      if contains (ascii ''wands'') s then ascii ''wands''
      else if contains (ascii ''cups'') s then ascii ''cups''
      else if contains (ascii ''pentacles'') s \<or> contains (ascii ''coin'') s
        then ascii ''pentacles''
      else if contains (ascii ''swords'') s \<or> contains (ascii ''blade'') s
        then ascii ''swords''
      else ascii ''majors'')"

text \<open>\<open>ray or ""\<close>: \<open>None\<close> and the empty string both count as the empty string.\<close>

definition or_empty :: "ustr option \<Rightarrow> ustr" where
  "or_empty ray = (case ray of None \<Rightarrow> [] | Some s \<Rightarrow> s)"

definition map_freq :: "(ustr \<Rightarrow> nat \<Rightarrow> ustr) \<Rightarrow> ustr option \<Rightarrow> int" where
  "map_freq U ray =
     (let r = lower U (or_empty ray) in
      if contains (ascii ''violet'') r then 963
      else if contains (ascii ''indigo'') r \<or> contains (ascii ''silver'') r then 852
      else if list_ex (\<lambda>x. contains x r)
                [ascii ''gold'', ascii ''emerald'', ascii ''green'', ascii ''aquamarine'',
                 ascii ''turquoise'']
        then 528
      else if contains (ascii ''crimson'') r then 417
      else if contains (ascii ''scarlet'') r \<or> contains (ascii ''red'') r then 285
      else 432)"

section \<open>Regular expressions\<close>

text \<open>
  The patterns of the source are sequences of items over character classes: one
  character of a class (a literal is the class of one code point), a greedy or a lazy
  repetition of a class with a least count, the anchors \<open>^\<close> and \<open>$\<close> under \<open>re.M\<close>, and
  a lookahead over single characters. \<open>mtch\<close> is the backtracking matcher of \<open>re\<close> at one
  start position: a greedy repetition takes as many characters as it can and gives them
  back one by one while the rest of the pattern fails, a lazy one takes as few as it can.
  The flag says whether the position is at the start of a line. The result is the text
  each item matched, in order, and the text left after the match.
\<close>

datatype item =
    One "cp \<Rightarrow> bool"
  | Many "cp \<Rightarrow> bool" nat
  | Few "cp \<Rightarrow> bool" nat
  | Bol
  | Eol
  | Ahead "(cp \<Rightarrow> bool) list"

type_synonym rmatch = "ustr list \<times> ustr"

fun skip :: "rmatch option \<Rightarrow> rmatch option" where
  "skip None = None"
| "skip (Some (gs, rest)) = Some ([] # gs, rest)"

fun grow :: "cp \<Rightarrow> rmatch option \<Rightarrow> rmatch option" where
  "grow c (Some (g # gs, rest)) = Some ((c # g) # gs, rest)"
| "grow c _ = None"

fun take1 :: "cp \<Rightarrow> rmatch option \<Rightarrow> rmatch option" where
  "take1 c None = None"
| "take1 c (Some (gs, rest)) = Some ([c] # gs, rest)"

fun orelse :: "rmatch option \<Rightarrow> rmatch option \<Rightarrow> rmatch option" where
  "orelse (Some m) _ = Some m"
| "orelse None y = y"

fun looks :: "(cp \<Rightarrow> bool) list \<Rightarrow> ustr \<Rightarrow> bool" where
  "looks [] s = True"
| "looks (p # ps) [] = False"
| "looks (p # ps) (c # t) = (p c \<and> looks ps t)"

fun at_eol :: "ustr \<Rightarrow> bool" where
  "at_eol [] = True"
| "at_eol (c # t) = (c = 10)"

fun mtch :: "item list \<Rightarrow> bool \<Rightarrow> ustr \<Rightarrow> rmatch option" where
  "mtch [] bol s = Some ([], s)"
| "mtch (One p # r) bol [] = None"
| "mtch (One p # r) bol (c # t) = (if p c then take1 c (mtch r (c = 10) t) else None)"
| "mtch (Many p n # r) bol [] = (if n = 0 then skip (mtch r bol []) else None)"
| "mtch (Many p n # r) bol (c # t) =
     orelse (if p c then grow c (mtch (Many p (n - 1) # r) (c = 10) t) else None)
            (if n = 0 then skip (mtch r bol (c # t)) else None)"
| "mtch (Few p n # r) bol [] = (if n = 0 then skip (mtch r bol []) else None)"
| "mtch (Few p n # r) bol (c # t) =
     orelse (if n = 0 then skip (mtch r bol (c # t)) else None)
            (if p c then grow c (mtch (Few p (n - 1) # r) (c = 10) t) else None)"
| "mtch (Bol # r) bol s = (if bol then skip (mtch r bol s) else None)"
| "mtch (Eol # r) bol s = (if at_eol s then skip (mtch r bol s) else None)"
| "mtch (Ahead ps # r) bol s = (if looks ps s then skip (mtch r bol s) else None)"

text \<open>\<open>re.search\<close>: the match at the leftmost start position that has one.\<close>

fun search :: "item list \<Rightarrow> bool \<Rightarrow> ustr \<Rightarrow> rmatch option" where
  "search its bol [] = mtch its bol []"
| "search its bol (c # t) = orelse (mtch its bol (c # t)) (search its (c = 10) t)"

definition re_search :: "item list \<Rightarrow> ustr \<Rightarrow> rmatch option" where
  "re_search its s = search its True s"

text \<open>
  \<open>re.split\<close> for a pattern without groups: the pieces between the matches, found from
  left to right. The one pattern the source splits on consumes a line break in every
  match; a match that consumes nothing is passed over here.
\<close>

fun ends_nl :: "bool \<Rightarrow> ustr \<Rightarrow> bool" where
  "ends_nl bol [] = bol"
| "ends_nl bol (c # t) = ends_nl (c = 10) t"

function split_from :: "item list \<Rightarrow> bool \<Rightarrow> ustr \<Rightarrow> ustr \<Rightarrow> ustr list" where
  "split_from its bol [] cur = [rev cur]"
| "split_from its bol (c # t) cur =
     (case mtch its bol (c # t) of
        None \<Rightarrow> split_from its (c = 10) t (c # cur)
      | Some (gs, rest) \<Rightarrow>
          if length rest < length (c # t)
          then rev cur # split_from its (ends_nl bol (concat gs)) rest []
          else split_from its (c = 10) t (c # cur))"
  by pat_completeness auto
termination
  by (relation "measure (\<lambda>(its, bol, s, cur). length s)") auto

definition re_split :: "item list \<Rightarrow> ustr \<Rightarrow> ustr list" where
  "re_split its s = split_from its True s []"

definition lit :: "ustr \<Rightarrow> item list" where
  "lit k = map (\<lambda>x. One ((=) x)) k"

section \<open>Block splitter and field extractor\<close>

text \<open>\<open>re.split(r"\n(?=##\s)", md)\<close>, then the pieces that start with \<open>"## "\<close>.\<close>

definition split_pat :: "item list" where
  "split_pat = [One ((=) 10), Ahead [(=) 35, (=) 35, is_space]]"

definition blocks :: "ustr \<Rightarrow> ustr list" where
  "blocks md = filter (prefix (ascii ''## '')) (re_split split_pat md)"

text \<open>
  \<open>re.search(r"-\s*%s:\s*([^\n]+)" % re.escape(k), b)\<close>: the escaped key matches itself,
  literally. The group is the last item.
\<close>

definition field_pat :: "ustr \<Rightarrow> item list" where
  "field_pat k =
     One ((=) 45) # Many is_space 0 # lit k @ [One ((=) 58), Many is_space 0, Many (\<lambda>c. c \<noteq> 10) 1]"

definition field :: "ustr \<Rightarrow> ustr \<Rightarrow> ustr" where
  "field b k =
     (case re_search (field_pat k) b of
        None \<Rightarrow> []
      | Some (gs, rest) \<Rightarrow> strip (last gs))"

section \<open>List normalizer\<close>

text \<open>\<open>str.split(sep)\<close> for a separator of one code point.\<close>

function split_on :: "cp \<Rightarrow> ustr \<Rightarrow> ustr list" where
  "split_on sep s =
     takeWhile (\<lambda>c. c \<noteq> sep) s #
       (case dropWhile (\<lambda>c. c \<noteq> sep) s of [] \<Rightarrow> [] | c # t \<Rightarrow> split_on sep t)"
  by pat_completeness auto
termination
proof (relation "measure (\<lambda>(sep, s). length s)")
  show "wf (measure (\<lambda>(sep, s). length s))"
    by simp
next
  fix sep :: cp and s :: ustr and c :: cp and t :: ustr
  assume "dropWhile (\<lambda>c. c \<noteq> sep) s = c # t"
  then have "length (c # t) \<le> length s"
    using length_dropWhile_le [of "\<lambda>c. c \<noteq> sep" s] by simp
  then show "((sep, t), (sep, s)) \<in> measure (\<lambda>(sep, s). length s)"
    by simp
qed

declare split_on.simps [simp del]

definition replace_chr :: "cp \<Rightarrow> cp \<Rightarrow> ustr \<Rightarrow> ustr" where
  "replace_chr old new s = map (\<lambda>c. if c = old then new else c) s"

definition parse_list :: "ustr option \<Rightarrow> ustr list" where
  "parse_list v =
     (if or_empty v = [] then []
      else let cleaned = replace_chr 59 44 (or_empty v);
               parts = map strip (split_on 44 cleaned)
           in filter (\<lambda>p. p \<noteq> []) parts)"

section \<open>Card assembler\<close>

text \<open>
  What Python raises is a value: \<open>ValueError\<close> from \<open>float\<close>, \<open>OSError\<close> from the file
  system.
\<close>

datatype error = ValueError | OSError

text \<open>
  \<open>\w\<close>, \<open>\d\<close> and \<open>float\<close> read the Unicode character database beyond ASCII: \<open>W\<close> says
  which code points of 128 or more are word characters, \<open>D\<close> gives the value of those
  that are decimal digits.
\<close>

definition is_word :: "(cp \<Rightarrow> bool) \<Rightarrow> cp \<Rightarrow> bool" where
  "is_word W c =
     (if c < 128
      then (48 \<le> c \<and> c \<le> 57) \<or> (65 \<le> c \<and> c \<le> 90) \<or> c = 95 \<or> (97 \<le> c \<and> c \<le> 122)
      else W c)"

definition digit_val :: "(cp \<Rightarrow> nat option) \<Rightarrow> cp \<Rightarrow> nat option" where
  "digit_val D c = (if c < 128 then (if 48 \<le> c \<and> c \<le> 57 then Some (c - 48) else None) else D c)"

definition is_digit :: "(cp \<Rightarrow> nat option) \<Rightarrow> cp \<Rightarrow> bool" where
  "is_digit D c = (digit_val D c \<noteq> None)"

text \<open>\<open>re.sub(r"[^\w]+", "_", name)\<close>: every maximal run of non-word characters becomes one \<open>_\<close>.\<close>

function sub_nonword :: "(cp \<Rightarrow> bool) \<Rightarrow> ustr \<Rightarrow> ustr" where
  "sub_nonword W [] = []"
| "sub_nonword W (c # t) =
     (if is_word W c then c # sub_nonword W t
      else 95 # sub_nonword W (dropWhile (\<lambda>x. \<not> is_word W x) t))"
  by pat_completeness auto
termination
proof (relation "measure (\<lambda>(W, s). length s)")
  show "wf (measure (\<lambda>(W, s). length s))"
    by simp
next
  fix W :: "cp \<Rightarrow> bool" and c :: cp and t :: ustr
  show "((W, t), (W, c # t)) \<in> measure (\<lambda>(W, s). length s)"
    by simp
next
  fix W :: "cp \<Rightarrow> bool" and c :: cp and t :: ustr
  have "length (dropWhile (\<lambda>x. \<not> is_word W x) t) \<le> length t"
    by (rule length_dropWhile_le)
  then show "((W, dropWhile (\<lambda>x. \<not> is_word W x) t), (W, c # t)) \<in> measure (\<lambda>(W, s). length s)"
    by simp
qed

text \<open>
  \<open>float\<close> on the text the program hands it, a non-empty run of decimal digits and dots:
  the text is a number when it holds at most one dot and at least one digit, and
  \<open>ValueError\<close> is raised otherwise. \<open>R\<close> rounds the decimal value to the nearest double
  (infinity when it is too large); \<open>float\<close> of an integer rounds the integer.
\<close>

definition dec_val :: "(cp \<Rightarrow> nat option) \<Rightarrow> ustr \<Rightarrow> nat" where
  "dec_val D ds = foldl (\<lambda>a c. 10 * a + (case digit_val D c of None \<Rightarrow> 0 | Some d \<Rightarrow> d)) 0 ds"

definition float_str :: "(cp \<Rightarrow> nat option) \<Rightarrow> (rat \<Rightarrow> 'f) \<Rightarrow> ustr \<Rightarrow> error + 'f" where
  "float_str D R s =
     (let ip = takeWhile (\<lambda>c. c \<noteq> 46) s in
      case dropWhile (\<lambda>c. c \<noteq> 46) s of
        [] \<Rightarrow> if ip \<noteq> [] \<and> list_all (is_digit D) ip
               then Inr (R (of_nat (dec_val D ip))) else Inl ValueError
      | dot # fp \<Rightarrow>
          if list_all (is_digit D) ip \<and> list_all (is_digit D) fp \<and> ip @ fp \<noteq> []
          then Inr (R (of_nat (dec_val D (ip @ fp)) / 10 ^ length fp))
          else Inl ValueError)"

definition float_int :: "(rat \<Rightarrow> 'f) \<Rightarrow> int \<Rightarrow> 'f" where
  "float_int R n = R (of_int n)"

text \<open>\<open>str.find\<close> and \<open>str.rfind\<close> for one code point: the index, or \<open>-1\<close>.\<close>

fun find_chr :: "cp \<Rightarrow> ustr \<Rightarrow> int" where
  "find_chr c [] = - 1"
| "find_chr c (x # t) =
     (if x = c then 0 else let r = find_chr c t in if r < 0 then - 1 else r + 1)"

definition rfind_chr :: "cp \<Rightarrow> ustr \<Rightarrow> int" where
  "rfind_chr c s = (let r = find_chr c (rev s) in if r < 0 then - 1 else int (length s) - 1 - r)"

text \<open>\<open>s[a:b]\<close> for indices that are not negative.\<close>

definition slice :: "ustr \<Rightarrow> int \<Rightarrow> int \<Rightarrow> ustr" where
  "slice s a b = drop (nat a) (take (nat b) s)"

text \<open>\<open>re.search(r"^##\s+(.+?)\s*$", b, re.M)\<close>; the group is the fifth item.\<close>

definition name_pat :: "item list" where
  "name_pat =
     [Bol, One ((=) 35), One ((=) 35), Many is_space 1, Few (\<lambda>c. c \<noteq> 10) 1, Many is_space 0, Eol]"

text \<open>\<open>re.search(r"Solfeggio\s*=\s*([\d\.]+)", tech)\<close>; the group is the last item.\<close>

definition solf_pat :: "(cp \<Rightarrow> nat option) \<Rightarrow> item list" where
  "solf_pat D =
     lit (ascii ''Solfeggio'') @
     [Many is_space 0, One ((=) 61), Many is_space 0, Many (\<lambda>c. is_digit D c \<or> c = 46) 1]"

record 'f card =
  c_id :: ustr
  c_name :: ustr
  c_suit :: ustr
  c_letter :: ustr
  c_astrology :: ustr
  c_ray :: ustr
  c_angel :: ustr
  c_demon :: ustr
  c_deities :: ustr
  c_crystal :: ustr
  c_chemistry :: ustr
  c_artifact :: ustr
  c_pigment :: ustr
  c_tara :: ustr
  c_thought :: ustr
  c_hga_fragment :: ustr
  c_pattern_glyph :: ustr
  c_psyche :: ustr
  c_technical :: ustr
  c_appPulls :: ustr
  c_freq :: 'f
  c_witchEyeOrders :: "ustr list"
  c_nonLivingLineages :: "ustr list"

text \<open>The separator glyph of the \<open>Angel/Demon\<close> field is U+2194.\<close>

definition arrow :: cp where
  "arrow = 8596"

definition angel_demon :: "ustr \<Rightarrow> ustr \<times> ustr" where
  "angel_demon ad =
     (if contains [arrow] ad
      then let parts = map strip (split_on arrow ad)
           in (if parts \<noteq> [] then parts ! 0 else [],
               if length parts > 1 then parts ! 1 else [])
      else ([], []))"

definition crystal_of :: "ustr \<Rightarrow> ustr" where
  "crystal_of crystal_line =
     (if crystal_line \<noteq> [] then strip (split_on 40 crystal_line ! 0) else [])"

definition chem_of :: "ustr \<Rightarrow> ustr" where
  "chem_of crystal_line =
     (if crystal_line \<noteq> [] \<and> contains [40] crystal_line \<and> contains [41] crystal_line
      then let start = find_chr 40 crystal_line + 1;
               endp = rfind_chr 41 crystal_line
           in if endp > start then strip (slice crystal_line start endp) else []
      else [])"

definition freq_of ::
  "(ustr \<Rightarrow> nat \<Rightarrow> ustr) \<Rightarrow> (cp \<Rightarrow> nat option) \<Rightarrow> (rat \<Rightarrow> 'f) \<Rightarrow> ustr \<Rightarrow> ustr \<Rightarrow> error + 'f" where
  "freq_of U D R tech ray =
     (case re_search (solf_pat D) tech of
        Some (gs, rest) \<Rightarrow> float_str D R (last gs)
      | None \<Rightarrow> Inr (float_int R (map_freq U (Some ray))))"

text \<open>
  The body of the loop over the blocks: \<open>Inr None\<close> is \<open>continue\<close>, \<open>Inr (Some c)\<close> is the
  record that is appended, \<open>Inl e\<close> is an exception that leaves the loop.
\<close>

definition card_of ::
  "(ustr \<Rightarrow> nat \<Rightarrow> ustr) \<Rightarrow> (cp \<Rightarrow> bool) \<Rightarrow> (cp \<Rightarrow> nat option) \<Rightarrow> (rat \<Rightarrow> 'f) \<Rightarrow> ustr \<Rightarrow>
   error + 'f card option" where
  "card_of U W D R b =
     (case re_search name_pat b of
        None \<Rightarrow> Inr None
      | Some (gs, rest) \<Rightarrow>
          let name = strip (gs ! 4);
              app_pulls = field b (ascii ''App Pulls'')
          in if app_pulls = [] then Inr None
             else
               let ident = lower U (sub_nonword W name);
                   ray = field b (ascii ''Ray'');
                   ad = field b (ascii ''Angel/Demon'');
                   crystal_line = field b (ascii ''Crystal'');
                   tech = field b (ascii ''Technical'')
               in (case freq_of U D R tech ray of
                    Inl e \<Rightarrow> Inl e
                  | Inr freq \<Rightarrow>
                      Inr (Some \<lparr>
                        c_id = ident,
                        c_name = name,
                        c_suit = suit U name,
                        c_letter = field b (ascii ''Letter''),
                        c_astrology = field b (ascii ''Astrology''),
                        c_ray = ray,
                        c_angel = fst (angel_demon ad),
                        c_demon = snd (angel_demon ad),
                        c_deities = field b (ascii ''Deities''),
                        c_crystal = crystal_of crystal_line,
                        c_chemistry = chem_of crystal_line,
                        c_artifact = field b (ascii ''Artifact''),
                        c_pigment = field b (ascii ''Pigment''),
                        c_tara = field b (ascii ''Secret Tara''),
                        c_thought = field b (ascii ''Thought-form''),
                        c_hga_fragment = field b (ascii ''HGA Fragment''),
                        c_pattern_glyph = field b (ascii ''Pattern Glyph''),
                        c_psyche = field b (ascii ''Psyche''),
                        c_technical = tech,
                        c_appPulls = app_pulls,
                        c_freq = freq,
                        c_witchEyeOrders = parse_list (Some (field b (ascii ''Witch Eye Order''))),
                        c_nonLivingLineages =
                          parse_list (Some (field b (ascii ''Non-Living Lineage'')))\<rparr>)))"

fun assemble ::
  "(ustr \<Rightarrow> nat \<Rightarrow> ustr) \<Rightarrow> (cp \<Rightarrow> bool) \<Rightarrow> (cp \<Rightarrow> nat option) \<Rightarrow> (rat \<Rightarrow> 'f) \<Rightarrow>
   'f card list \<Rightarrow> ustr list \<Rightarrow> error + 'f card list" where
  "assemble U W D R cards [] = Inr cards"
| "assemble U W D R cards (b # bs) =
     (case card_of U W D R b of
        Inl e \<Rightarrow> Inl e
      | Inr None \<Rightarrow> assemble U W D R cards bs
      | Inr (Some c) \<Rightarrow> assemble U W D R (cards @ [c]) bs)"

text \<open>
  The whole script. What the file system does is an input: \<open>rd\<close> is the outcome of reading
  the input file, \<open>mk\<close> and \<open>wr\<close> say whether \<open>os.makedirs\<close> and the writing of the output
  file succeed. The result is the list of records that is written.
\<close>

definition compile ::
  "(ustr \<Rightarrow> nat \<Rightarrow> ustr) \<Rightarrow> (cp \<Rightarrow> bool) \<Rightarrow> (cp \<Rightarrow> nat option) \<Rightarrow> (rat \<Rightarrow> 'f) \<Rightarrow>
   error + ustr \<Rightarrow> bool \<Rightarrow> bool \<Rightarrow> error + 'f card list" where
  "compile U W D R rd mk wr =
     (case rd of
        Inl e \<Rightarrow> Inl e
      | Inr md \<Rightarrow>
          (case assemble U W D R [] (blocks md) of
             Inl e \<Rightarrow> Inl e
           | Inr cards \<Rightarrow> if \<not> mk then Inl OSError else if \<not> wr then Inl OSError else Inr cards))"

section \<open>Notions used in the statements\<close>

text \<open>
  The part of the field pattern after the colon: white space, then the captured run of
  characters other than the line break.
\<close>

definition tail_pat :: "item list" where
  "tail_pat = [Many is_space 0, Many (\<lambda>c. c \<noteq> 10) 1]"

text \<open>
  What the field extractor reads after the colon of a key, said without the matcher:
  white space is passed over, line breaks included, and the value is the text from the
  first other character to the end of its line, trimmed; when only white space follows
  the colon, the value is empty if some of that white space is not a line break, and
  there is no value at this colon otherwise.
\<close>

definition value_after :: "ustr \<Rightarrow> ustr option" where
  "value_after t =
     (let v = dropWhile is_space t in
      if v \<noteq> [] then Some (rstrip (takeWhile (\<lambda>c. c \<noteq> 10) v))
      else if list_ex (\<lambda>c. c \<noteq> 10) t then Some [] else None)"

text \<open>
  The pieces of a split joined again by line breaks, and the lookahead of the split
  pattern: \<open>##\<close> and one white-space character.
\<close>

fun join_nl :: "ustr list \<Rightarrow> ustr" where
  "join_nl [] = []"
| "join_nl [p] = p"
| "join_nl (p # q # ps) = p @ 10 # join_nl (q # ps)"

definition heading :: "(cp \<Rightarrow> bool) list" where
  "heading = [(=) 35, (=) 35, is_space]"

text \<open>
  The characters of the number of a Solfeggio marker, and the marker itself, said
  without the matcher: in the text \<open>tech\<close>, after the prefix \<open>pre\<close>, stand the word
  \<open>Solfeggio\<close>, optional white space, \<open>=\<close>, optional white space, and \<open>num\<close>, a run of
  decimal digits and dots that is not empty and that no digit or dot follows.
\<close>

definition num_char :: "(cp \<Rightarrow> nat option) \<Rightarrow> cp \<Rightarrow> bool" where
  "num_char D c = (is_digit D c \<or> c = 46)"

definition marker :: "(cp \<Rightarrow> nat option) \<Rightarrow> ustr \<Rightarrow> ustr \<Rightarrow> ustr \<Rightarrow> bool" where
  "marker D pre num tech =
     (\<exists>w1 w2 rest. tech = pre @ ascii ''Solfeggio'' @ w1 @ 61 # w2 @ num @ rest \<and>
        list_all is_space w1 \<and> list_all is_space w2 \<and> num \<noteq> [] \<and> list_all (num_char D) num \<and>
        (rest = [] \<or> \<not> num_char D (hd rest)))"

text \<open>
  A run of digits and dots is no number for \<open>float\<close> when it holds two dots or more, or
  no digit.
\<close>

definition not_a_number :: "(cp \<Rightarrow> nat option) \<Rightarrow> ustr \<Rightarrow> bool" where
  "not_a_number D num = (2 \<le> count_list num 46 \<or> \<not> list_ex (is_digit D) num)"


text \<open>
  The \<open>App Pulls\<close> field of a block, read from the text of the block. The field is
  present with a non-empty value when the block holds \<open>-\<close>, blanks, \<open>App Pulls:\<close>, blanks
  and then, before any line break, a character that is no white space. The block lacks
  the field when nothing but white space follows every \<open>- App Pulls:\<close> of the block up to
  the end of the block; a block that holds no \<open>- App Pulls:\<close> is one of these.
\<close>

definition has_app_pulls :: "ustr \<Rightarrow> bool" where
  "has_app_pulls b =
     (\<exists>pre w w2 c x. b = pre @ 45 # w @ ascii ''App Pulls'' @ 58 # w2 @ c # x \<and>
        list_all is_space w \<and> 10 \<notin> set w \<and> list_all is_space w2 \<and> 10 \<notin> set w2 \<and>
        \<not> is_space c)"

definition lacks_app_pulls :: "ustr \<Rightarrow> bool" where
  "lacks_app_pulls b =
     (\<forall>pre w t. b = pre @ 45 # w @ ascii ''App Pulls'' @ 58 # t \<and> list_all is_space w \<longrightarrow>
        list_all is_space t)"

section \<open>Lowercasing, suits and frequencies\<close>

lemma map_index_conv: "map (\<lambda>i. f (s ! i)) [0..<length s] = map f s"
  by (rule nth_equalityI) simp_all

lemma lower_ascii:
  assumes "list_all (\<lambda>c. c < 128) s"
  shows "lower U s = map ascii_lower s"
proof -
  have "map (\<lambda>i. if s ! i < 128 then [ascii_lower (s ! i)] else U s i) [0..<length s]
        = map (\<lambda>i. [ascii_lower (s ! i)]) [0..<length s]"
    using assms by (auto simp: list_all_length)
  also have "\<dots> = map (\<lambda>c. [ascii_lower c]) s"
    by (rule map_index_conv)
  finally show ?thesis
    by (simp add: lower_def)
qed

lemma contains_iff: "contains kw s \<longleftrightarrow> (\<exists>p q. s = p @ kw @ q)"
proof (induction s)
  case Nil
  show ?case by auto
next
  case (Cons c t)
  show ?case
  proof
    assume "contains kw (c # t)"
    then consider "prefix kw (c # t)" | "contains kw t"
      by auto
    then show "\<exists>p q. c # t = p @ kw @ q"
    proof cases
      case 1
      then obtain q where "c # t = kw @ q"
        by (auto simp: prefix_def)
      then have "c # t = [] @ kw @ q"
        by simp
      then show ?thesis
        by blast
    next
      case 2
      with Cons.IH obtain p q where "t = p @ kw @ q"
        by auto
      then have "c # t = (c # p) @ kw @ q"
        by simp
      then show ?thesis
        by blast
    qed
  next
    assume "\<exists>p q. c # t = p @ kw @ q"
    then obtain p q where e: "c # t = p @ kw @ q"
      by auto
    show "contains kw (c # t)"
    proof (cases p)
      case Nil
      with e have "prefix kw (c # t)"
        by (simp add: prefix_def)
      then show ?thesis
        by simp
    next
      case (Cons x p')
      with e have "t = p' @ kw @ q"
        by simp
      with Cons.IH show ?thesis
        by auto
    qed
  qed
qed

lemma lower_literal:
  "lower U (ascii ''Queen of Coins'') = ascii ''queen of coins''"
  "lower U (ascii ''Hero of Swords'') = ascii ''hero of swords''"
  "lower U (ascii ''The Fool'') = ascii ''the fool''"
  "lower U (ascii ''emerald and silver'') = ascii ''emerald and silver''"
  "lower U (ascii ''unknown hue'') = ascii ''unknown hue''"
  "lower U (ascii ''BLADE Dancer'') = ascii ''blade dancer''"
  "lower U (ascii ''Deep VIOLET'') = ascii ''deep violet''"
  "lower U [] = []"
  by (simp_all add: lower_ascii ascii_def ascii_lower_def)

lemma suit_names_distinct:
  "distinct [ascii ''wands'', ascii ''cups'', ascii ''pentacles'', ascii ''swords'',
             ascii ''majors'']"
  by (simp add: ascii_def)

lemma suit_cases:
  "suit U n = ascii ''wands'' \<longleftrightarrow> contains (ascii ''wands'') (lower U n)"
  "suit U n = ascii ''cups'' \<longleftrightarrow>
     \<not> contains (ascii ''wands'') (lower U n) \<and> contains (ascii ''cups'') (lower U n)"
  "suit U n = ascii ''pentacles'' \<longleftrightarrow>
     \<not> contains (ascii ''wands'') (lower U n) \<and> \<not> contains (ascii ''cups'') (lower U n) \<and>
     (contains (ascii ''pentacles'') (lower U n) \<or> contains (ascii ''coin'') (lower U n))"
  "suit U n = ascii ''swords'' \<longleftrightarrow>
     \<not> contains (ascii ''wands'') (lower U n) \<and> \<not> contains (ascii ''cups'') (lower U n) \<and>
     \<not> contains (ascii ''pentacles'') (lower U n) \<and> \<not> contains (ascii ''coin'') (lower U n) \<and>
     (contains (ascii ''swords'') (lower U n) \<or> contains (ascii ''blade'') (lower U n))"
  "suit U n = ascii ''majors'' \<longleftrightarrow>
     \<not> contains (ascii ''wands'') (lower U n) \<and> \<not> contains (ascii ''cups'') (lower U n) \<and>
     \<not> contains (ascii ''pentacles'') (lower U n) \<and> \<not> contains (ascii ''coin'') (lower U n) \<and>
     \<not> contains (ascii ''swords'') (lower U n) \<and> \<not> contains (ascii ''blade'') (lower U n)"
  using suit_names_distinct by (auto simp: suit_def Let_def)

lemma suit_case_blind:
  assumes "list_all (\<lambda>c. c < 128) n" "list_all (\<lambda>c. c < 128) m"
    and "map ascii_lower n = map ascii_lower m"
  shows "suit U n = suit U m"
  using assms by (simp add: suit_def lower_ascii)

lemma suit_examples:
  "suit U (ascii ''Queen of Coins'') = ascii ''pentacles''"
  "suit U (ascii ''Hero of Swords'') = ascii ''swords''"
  "suit U (ascii ''The Fool'') = ascii ''majors''"
  "suit U (ascii ''BLADE Dancer'') = ascii ''swords''"
  by (simp_all add: suit_def lower_literal) (simp_all add: ascii_def)

text \<open>
  C4. For every name, \<open>suit\<close> returns exactly one of wands, cups, pentacles, swords and
  majors, decided on the lowercased name by substring tests in a fixed order (wands;
  cups; pentacles or coin; swords or blade; majors otherwise), the first test that holds
  winning; a substring is a contiguous run of the name. The tests do not see the case of
  ASCII letters. In particular
  \<open>suit("Queen of Coins")\<close> is pentacles, \<open>suit("Hero of Swords")\<close> is swords and
  \<open>suit("The Fool")\<close> is majors.
\<close>

theorem suit_classification:
  "suit U n \<in> {ascii ''wands'', ascii ''cups'', ascii ''pentacles'', ascii ''swords'',
               ascii ''majors''}
   \<and> (suit U n = ascii ''wands'' \<longleftrightarrow> contains (ascii ''wands'') (lower U n))
   \<and> (suit U n = ascii ''cups'' \<longleftrightarrow>
        \<not> contains (ascii ''wands'') (lower U n) \<and> contains (ascii ''cups'') (lower U n))
   \<and> (suit U n = ascii ''pentacles'' \<longleftrightarrow>
        \<not> contains (ascii ''wands'') (lower U n) \<and> \<not> contains (ascii ''cups'') (lower U n) \<and>
        (contains (ascii ''pentacles'') (lower U n) \<or> contains (ascii ''coin'') (lower U n)))
   \<and> (suit U n = ascii ''swords'' \<longleftrightarrow>
        \<not> contains (ascii ''wands'') (lower U n) \<and> \<not> contains (ascii ''cups'') (lower U n) \<and>
        \<not> contains (ascii ''pentacles'') (lower U n) \<and> \<not> contains (ascii ''coin'') (lower U n) \<and>
        (contains (ascii ''swords'') (lower U n) \<or> contains (ascii ''blade'') (lower U n)))
   \<and> (suit U n = ascii ''majors'' \<longleftrightarrow>
        \<not> contains (ascii ''wands'') (lower U n) \<and> \<not> contains (ascii ''cups'') (lower U n) \<and>
        \<not> contains (ascii ''pentacles'') (lower U n) \<and> \<not> contains (ascii ''coin'') (lower U n) \<and>
        \<not> contains (ascii ''swords'') (lower U n) \<and> \<not> contains (ascii ''blade'') (lower U n))
   \<and> (list_all (\<lambda>c. c < 128) n \<and> list_all (\<lambda>c. c < 128) m \<and>
        map ascii_lower n = map ascii_lower m \<longrightarrow> suit U n = suit U m)
   \<and> suit U (ascii ''Queen of Coins'') = ascii ''pentacles''
   \<and> suit U (ascii ''Hero of Swords'') = ascii ''swords''
   \<and> suit U (ascii ''The Fool'') = ascii ''majors''
   \<and> (contains kw s \<longleftrightarrow> (\<exists>p q. s = p @ kw @ q))"
proof -
  have "suit U n \<in> {ascii ''wands'', ascii ''cups'', ascii ''pentacles'', ascii ''swords'',
                    ascii ''majors''}"
    by (simp add: suit_def Let_def)
  moreover have "list_all (\<lambda>c. c < 128) n \<and> list_all (\<lambda>c. c < 128) m \<and>
      map ascii_lower n = map ascii_lower m \<longrightarrow> suit U n = suit U m"
    using suit_case_blind by blast
  ultimately show ?thesis
    using suit_cases [of U n] suit_examples(1-3) [of U] contains_iff [of kw s] by blast
qed

theorem suit_classification_witness:
  "suit (\<lambda>s i. [s ! i]) (ascii ''BLADE Dancer'') = suit (\<lambda>s i. [s ! i]) (ascii ''blade dancer'')
   \<and> suit (\<lambda>s i. [s ! i]) (ascii ''blade dancer'') = ascii ''swords''"
proof -
  have a: "list_all (\<lambda>c. c < 128) (ascii ''BLADE Dancer'')"
    and b: "list_all (\<lambda>c. c < 128) (ascii ''blade dancer'')"
    and c: "map ascii_lower (ascii ''BLADE Dancer'') = map ascii_lower (ascii ''blade dancer'')"
    by (simp_all add: ascii_def ascii_lower_def)
  have d: "suit (\<lambda>s i. [s ! i]) (ascii ''BLADE Dancer'') = ascii ''swords''"
    by (rule suit_examples)
  have "suit (\<lambda>s i. [s ! i]) (ascii ''BLADE Dancer'')
        = suit (\<lambda>s i. [s ! i]) (ascii ''blade dancer'')"
    using a b c
      suit_classification [of "\<lambda>s i. [s ! i]" "ascii ''BLADE Dancer''" "ascii ''blade dancer''"
        "[]" "[]"]
    by blast
  with d show ?thesis
    by simp
qed

lemma map_freq_cases:
  "map_freq U ray = 963 \<longleftrightarrow> contains (ascii ''violet'') (lower U (or_empty ray))"
  "map_freq U ray = 852 \<longleftrightarrow>
     \<not> contains (ascii ''violet'') (lower U (or_empty ray)) \<and>
     (contains (ascii ''indigo'') (lower U (or_empty ray)) \<or>
      contains (ascii ''silver'') (lower U (or_empty ray)))"
  "map_freq U ray = 528 \<longleftrightarrow>
     \<not> contains (ascii ''violet'') (lower U (or_empty ray)) \<and>
     \<not> contains (ascii ''indigo'') (lower U (or_empty ray)) \<and>
     \<not> contains (ascii ''silver'') (lower U (or_empty ray)) \<and>
     (contains (ascii ''gold'') (lower U (or_empty ray)) \<or>
      contains (ascii ''emerald'') (lower U (or_empty ray)) \<or>
      contains (ascii ''green'') (lower U (or_empty ray)) \<or>
      contains (ascii ''aquamarine'') (lower U (or_empty ray)) \<or>
      contains (ascii ''turquoise'') (lower U (or_empty ray)))"
  "map_freq U ray = 417 \<longleftrightarrow>
     \<not> contains (ascii ''violet'') (lower U (or_empty ray)) \<and>
     \<not> contains (ascii ''indigo'') (lower U (or_empty ray)) \<and>
     \<not> contains (ascii ''silver'') (lower U (or_empty ray)) \<and>
     \<not> contains (ascii ''gold'') (lower U (or_empty ray)) \<and>
     \<not> contains (ascii ''emerald'') (lower U (or_empty ray)) \<and>
     \<not> contains (ascii ''green'') (lower U (or_empty ray)) \<and>
     \<not> contains (ascii ''aquamarine'') (lower U (or_empty ray)) \<and>
     \<not> contains (ascii ''turquoise'') (lower U (or_empty ray)) \<and>
     contains (ascii ''crimson'') (lower U (or_empty ray))"
  "map_freq U ray = 285 \<longleftrightarrow>
     \<not> contains (ascii ''violet'') (lower U (or_empty ray)) \<and>
     \<not> contains (ascii ''indigo'') (lower U (or_empty ray)) \<and>
     \<not> contains (ascii ''silver'') (lower U (or_empty ray)) \<and>
     \<not> contains (ascii ''gold'') (lower U (or_empty ray)) \<and>
     \<not> contains (ascii ''emerald'') (lower U (or_empty ray)) \<and>
     \<not> contains (ascii ''green'') (lower U (or_empty ray)) \<and>
     \<not> contains (ascii ''aquamarine'') (lower U (or_empty ray)) \<and>
     \<not> contains (ascii ''turquoise'') (lower U (or_empty ray)) \<and>
     \<not> contains (ascii ''crimson'') (lower U (or_empty ray)) \<and>
     (contains (ascii ''scarlet'') (lower U (or_empty ray)) \<or>
      contains (ascii ''red'') (lower U (or_empty ray)))"
  "map_freq U ray = 432 \<longleftrightarrow>
     \<not> contains (ascii ''violet'') (lower U (or_empty ray)) \<and>
     \<not> contains (ascii ''indigo'') (lower U (or_empty ray)) \<and>
     \<not> contains (ascii ''silver'') (lower U (or_empty ray)) \<and>
     \<not> contains (ascii ''gold'') (lower U (or_empty ray)) \<and>
     \<not> contains (ascii ''emerald'') (lower U (or_empty ray)) \<and>
     \<not> contains (ascii ''green'') (lower U (or_empty ray)) \<and>
     \<not> contains (ascii ''aquamarine'') (lower U (or_empty ray)) \<and>
     \<not> contains (ascii ''turquoise'') (lower U (or_empty ray)) \<and>
     \<not> contains (ascii ''crimson'') (lower U (or_empty ray)) \<and>
     \<not> contains (ascii ''scarlet'') (lower U (or_empty ray)) \<and>
     \<not> contains (ascii ''red'') (lower U (or_empty ray))"
  by (auto simp: map_freq_def Let_def)

lemma map_freq_range: "map_freq U ray \<in> {963, 852, 528, 417, 285, 432}"
  by (simp add: map_freq_def Let_def)

lemma map_freq_case_blind:
  assumes "list_all (\<lambda>c. c < 128) r" "list_all (\<lambda>c. c < 128) q"
    and "map ascii_lower r = map ascii_lower q"
  shows "map_freq U (Some r) = map_freq U (Some q)"
  using assms by (simp add: map_freq_def or_empty_def lower_ascii)

lemma map_freq_examples:
  "map_freq U (Some (ascii ''emerald and silver'')) = 852"
  "map_freq U (Some (ascii ''unknown hue'')) = 432"
  "map_freq U None = 432"
  "map_freq U (Some []) = 432"
  "map_freq U (Some (ascii ''Deep VIOLET'')) = 963"
  by (simp_all add: map_freq_def or_empty_def lower_literal) (simp_all add: ascii_def)

text \<open>
  C3. For every input, the absent and the empty string included, \<open>map_freq\<close> returns
  exactly one of 963, 852, 528, 417, 285 and 432, decided on the lowercased string by
  keyword tests in a fixed order: violet; indigo or silver; gold, emerald, green,
  aquamarine or turquoise; crimson; scarlet or red; 432 otherwise. An earlier rule wins
  also when a keyword of a later rule occurs. The tests do not see the case of ASCII
  letters. In particular \<open>map_freq("emerald and silver")\<close> is 852 and
  \<open>map_freq("unknown hue")\<close> is 432.
\<close>

theorem map_freq_precedence:
  "map_freq U ray \<in> {963, 852, 528, 417, 285, 432}
   \<and> (map_freq U ray = 963 \<longleftrightarrow>
      contains (ascii ''violet'') (lower U (or_empty ray)))
   \<and> (map_freq U ray = 852 \<longleftrightarrow>
      \<not> contains (ascii ''violet'') (lower U (or_empty ray)) \<and>
      (contains (ascii ''indigo'') (lower U (or_empty ray)) \<or>
       contains (ascii ''silver'') (lower U (or_empty ray))))
   \<and> (map_freq U ray = 528 \<longleftrightarrow>
      \<not> contains (ascii ''violet'') (lower U (or_empty ray)) \<and>
      \<not> contains (ascii ''indigo'') (lower U (or_empty ray)) \<and>
      \<not> contains (ascii ''silver'') (lower U (or_empty ray)) \<and>
      (contains (ascii ''gold'') (lower U (or_empty ray)) \<or>
       contains (ascii ''emerald'') (lower U (or_empty ray)) \<or>
       contains (ascii ''green'') (lower U (or_empty ray)) \<or>
       contains (ascii ''aquamarine'') (lower U (or_empty ray)) \<or>
       contains (ascii ''turquoise'') (lower U (or_empty ray))))
   \<and> (map_freq U ray = 417 \<longleftrightarrow>
      \<not> contains (ascii ''violet'') (lower U (or_empty ray)) \<and>
      \<not> contains (ascii ''indigo'') (lower U (or_empty ray)) \<and>
      \<not> contains (ascii ''silver'') (lower U (or_empty ray)) \<and>
      \<not> contains (ascii ''gold'') (lower U (or_empty ray)) \<and>
      \<not> contains (ascii ''emerald'') (lower U (or_empty ray)) \<and>
      \<not> contains (ascii ''green'') (lower U (or_empty ray)) \<and>
      \<not> contains (ascii ''aquamarine'') (lower U (or_empty ray)) \<and>
      \<not> contains (ascii ''turquoise'') (lower U (or_empty ray)) \<and>
      contains (ascii ''crimson'') (lower U (or_empty ray)))
   \<and> (map_freq U ray = 285 \<longleftrightarrow>
      \<not> contains (ascii ''violet'') (lower U (or_empty ray)) \<and>
      \<not> contains (ascii ''indigo'') (lower U (or_empty ray)) \<and>
      \<not> contains (ascii ''silver'') (lower U (or_empty ray)) \<and>
      \<not> contains (ascii ''gold'') (lower U (or_empty ray)) \<and>
      \<not> contains (ascii ''emerald'') (lower U (or_empty ray)) \<and>
      \<not> contains (ascii ''green'') (lower U (or_empty ray)) \<and>
      \<not> contains (ascii ''aquamarine'') (lower U (or_empty ray)) \<and>
      \<not> contains (ascii ''turquoise'') (lower U (or_empty ray)) \<and>
      \<not> contains (ascii ''crimson'') (lower U (or_empty ray)) \<and>
      (contains (ascii ''scarlet'') (lower U (or_empty ray)) \<or>
       contains (ascii ''red'') (lower U (or_empty ray))))
   \<and> (map_freq U ray = 432 \<longleftrightarrow>
      \<not> contains (ascii ''violet'') (lower U (or_empty ray)) \<and>
      \<not> contains (ascii ''indigo'') (lower U (or_empty ray)) \<and>
      \<not> contains (ascii ''silver'') (lower U (or_empty ray)) \<and>
      \<not> contains (ascii ''gold'') (lower U (or_empty ray)) \<and>
      \<not> contains (ascii ''emerald'') (lower U (or_empty ray)) \<and>
      \<not> contains (ascii ''green'') (lower U (or_empty ray)) \<and>
      \<not> contains (ascii ''aquamarine'') (lower U (or_empty ray)) \<and>
      \<not> contains (ascii ''turquoise'') (lower U (or_empty ray)) \<and>
      \<not> contains (ascii ''crimson'') (lower U (or_empty ray)) \<and>
      \<not> contains (ascii ''scarlet'') (lower U (or_empty ray)) \<and>
      \<not> contains (ascii ''red'') (lower U (or_empty ray)))
   \<and> (list_all (\<lambda>c. c < 128) r \<and> list_all (\<lambda>c. c < 128) q \<and>
      map ascii_lower r = map ascii_lower q \<longrightarrow> map_freq U (Some r) = map_freq U (Some q))
   \<and> map_freq U None = 432
   \<and> map_freq U (Some []) = 432
   \<and> map_freq U (Some (ascii ''emerald and silver'')) = 852
   \<and> map_freq U (Some (ascii ''unknown hue'')) = 432
   \<and> (contains kw s \<longleftrightarrow> (\<exists>p q. s = p @ kw @ q))"
proof -
  have "list_all (\<lambda>c. c < 128) r \<and> list_all (\<lambda>c. c < 128) q \<and>
      map ascii_lower r = map ascii_lower q \<longrightarrow> map_freq U (Some r) = map_freq U (Some q)"
    using map_freq_case_blind by blast
  then show ?thesis
    using map_freq_range [of U ray] map_freq_cases [of U ray] map_freq_examples(1-4) [of U]
      contains_iff [of kw s]
    by blast
qed

theorem map_freq_precedence_witness:
  "map_freq (\<lambda>s i. [s ! i]) (Some (ascii ''Deep VIOLET'')) = 963
   \<and> map_freq (\<lambda>s i. [s ! i]) (Some (ascii ''deep violet'')) = 963
   \<and> contains (ascii ''violet'') (lower (\<lambda>s i. [s ! i]) (ascii ''Deep VIOLET''))"
proof -
  have a: "list_all (\<lambda>c. c < 128) (ascii ''Deep VIOLET'')"
    and b: "list_all (\<lambda>c. c < 128) (ascii ''deep violet'')"
    and c: "map ascii_lower (ascii ''Deep VIOLET'') = map ascii_lower (ascii ''deep violet'')"
    by (simp_all add: ascii_def ascii_lower_def)
  have d: "contains (ascii ''violet'') (lower (\<lambda>s i. [s ! i]) (ascii ''Deep VIOLET''))"
    by (simp add: lower_literal) (simp add: ascii_def)
  note t = map_freq_precedence [of "\<lambda>s i. [s ! i]" "Some (ascii ''Deep VIOLET'')"
      "ascii ''Deep VIOLET''" "ascii ''deep violet''" "[]" "[]"]
  have e: "map_freq (\<lambda>s i. [s ! i]) (Some (ascii ''Deep VIOLET'')) = 963"
    using t d by (simp add: or_empty_def)
  have "map_freq (\<lambda>s i. [s ! i]) (Some (ascii ''Deep VIOLET''))
        = map_freq (\<lambda>s i. [s ! i]) (Some (ascii ''deep violet''))"
    using t a b c by blast
  with d e show ?thesis
    by simp
qed

section \<open>What a record holds\<close>

lemma card_of_fields:
  assumes "card_of U W D R b = Inr (Some c)"
  shows "c_appPulls c = field b (ascii ''App Pulls'')"
    and "c_appPulls c \<noteq> []"
    and "c_ray c = field b (ascii ''Ray'')"
    and "c_technical c = field b (ascii ''Technical'')"
    and "c_angel c = fst (angel_demon (field b (ascii ''Angel/Demon'')))"
    and "c_demon c = snd (angel_demon (field b (ascii ''Angel/Demon'')))"
    and "c_crystal c = crystal_of (field b (ascii ''Crystal''))"
    and "c_chemistry c = chem_of (field b (ascii ''Crystal''))"
    and "freq_of U D R (field b (ascii ''Technical'')) (field b (ascii ''Ray'')) = Inr (c_freq c)"
  using assms
  by (auto simp: card_of_def Let_def split: option.splits sum.splits if_splits prod.splits)

lemma strip_Nil: "strip [] = []"
  by (simp add: strip_def lstrip_def rstrip_def)

section \<open>Angel and demon, crystal and chemistry\<close>

lemma contains_single: "contains [c] s \<longleftrightarrow> c \<in> set s"
  by (induction s) auto

lemma takeWhile_upto: "c \<notin> set a \<Longrightarrow> takeWhile (\<lambda>x. x \<noteq> c) (a @ c # r) = a"
  by (induction a) auto

lemma dropWhile_upto: "c \<notin> set a \<Longrightarrow> dropWhile (\<lambda>x. x \<noteq> c) (a @ c # r) = c # r"
  by (induction a) auto

lemma takeWhile_absent: "c \<notin> set a \<Longrightarrow> takeWhile (\<lambda>x. x \<noteq> c) a = a"
  by (induction a) auto

lemma dropWhile_absent: "c \<notin> set a \<Longrightarrow> dropWhile (\<lambda>x. x \<noteq> c) a = []"
  by (induction a) auto

lemma split_on_notin: "sep \<notin> set a \<Longrightarrow> split_on sep a = [a]"
  by (subst split_on.simps) (simp add: takeWhile_absent dropWhile_absent)

lemma split_on_append: "sep \<notin> set a \<Longrightarrow> split_on sep (a @ sep # r) = a # split_on sep r"
  by (subst split_on.simps) (simp add: takeWhile_upto dropWhile_upto)

lemma split_on_Cons: "\<exists>p ps. split_on sep s = p # ps"
  by (subst split_on.simps) simp

lemma angel_demon_none: "arrow \<notin> set ad \<Longrightarrow> angel_demon ad = ([], [])"
  by (simp add: angel_demon_def contains_single)

lemma angel_demon_one:
  "arrow \<notin> set a \<Longrightarrow> arrow \<notin> set d \<Longrightarrow> angel_demon (a @ arrow # d) = (strip a, strip d)"
  by (simp add: angel_demon_def contains_single split_on_append split_on_notin)

lemma angel_demon_more:
  "arrow \<notin> set a \<Longrightarrow> arrow \<notin> set d \<Longrightarrow>
   angel_demon (a @ arrow # d @ arrow # r) = (strip a, strip d)"
  by (simp add: angel_demon_def contains_single split_on_append)

lemma find_chr_neg: "find_chr c s < 0 \<longleftrightarrow> c \<notin> set s"
  by (induction s) (auto simp: Let_def)

lemma find_chr_ge: "- 1 \<le> find_chr c s"
  by (induction s) (auto simp: Let_def)

lemma find_chr_lt: "find_chr c s < int (length s)"
  by (induction s) (auto simp: Let_def)

lemma find_chr_append_notin:
  "c \<notin> set a \<Longrightarrow>
   find_chr c (a @ w) = (if find_chr c w < 0 then - 1 else int (length a) + find_chr c w)"
  using find_chr_ge [of c w] by (induction a) (auto simp: Let_def)

lemma find_chr_first: "c \<notin> set a \<Longrightarrow> find_chr c (a @ c # r) = int (length a)"
  by (simp add: find_chr_append_notin)

lemma rfind_chr_last: "c \<notin> set z \<Longrightarrow> rfind_chr c (y @ c # z) = int (length y)"
  by (simp add: rfind_chr_def find_chr_append_notin Let_def)

lemma rfind_chr_append_notin: "c \<notin> set z \<Longrightarrow> rfind_chr c (y @ z) = rfind_chr c y"
  by (simp add: rfind_chr_def find_chr_append_notin Let_def)

lemma rfind_chr_lt: "rfind_chr c s < int (length s)"
  using find_chr_ge [of c "rev s"] by (simp add: rfind_chr_def Let_def)

lemma crystal_before_paren: "40 \<notin> set a \<Longrightarrow> crystal_of (a @ 40 # r) = strip a"
  by (simp add: crystal_of_def split_on_append)

lemma crystal_no_paren: "40 \<notin> set cl \<Longrightarrow> crystal_of cl = strip cl"
  by (simp add: crystal_of_def split_on_notin strip_def lstrip_def rstrip_def)

lemma chem_no_open: "40 \<notin> set cl \<Longrightarrow> chem_of cl = []"
  by (simp add: chem_of_def contains_single)

lemma chem_between:
  assumes "40 \<notin> set a" "41 \<notin> set z"
  shows "chem_of (a @ 40 # m @ 41 # z) = strip m"
proof -
  have f: "find_chr 40 (a @ 40 # m @ 41 # z) = int (length a)"
    using assms(1) by (rule find_chr_first)
  have "rfind_chr 41 ((a @ 40 # m) @ 41 # z) = int (length (a @ 40 # m))"
    using assms(2) by (rule rfind_chr_last)
  then have r: "rfind_chr 41 (a @ 40 # m @ 41 # z) = int (length a) + 1 + int (length m)"
    by simp
  have s: "slice (a @ 40 # m @ 41 # z) (int (length a) + 1) (int (length a) + 1 + int (length m)) = m"
    by (simp add: slice_def nat_add_distrib)
  show ?thesis
  proof (cases "m = []")
    case True
    then show ?thesis
      using f r by (simp add: chem_of_def contains_single Let_def strip_def lstrip_def rstrip_def)
  next
    case False
    then show ?thesis
      using f r s by (simp add: chem_of_def contains_single Let_def)
  qed
qed

lemma chem_unclosed:
  assumes "40 \<notin> set a" "41 \<notin> set r"
  shows "chem_of (a @ 40 # r) = []"
proof -
  have f: "find_chr 40 (a @ 40 # r) = int (length a)"
    using assms(1) by (rule find_chr_first)
  have "rfind_chr 41 (a @ 40 # r) = rfind_chr 41 a"
    using assms(2) rfind_chr_append_notin [of 41 "40 # r" a] by simp
  then have "rfind_chr 41 (a @ 40 # r) < int (length a)"
    using rfind_chr_lt [of 41 a] by simp
  then show ?thesis
    using f by (simp add: chem_of_def Let_def)
qed

text \<open>
  C5, as the code has it. For every value of the \<open>Angel/Demon\<close> field: when the glyph
  U+2194 is absent, \<open>angel\<close> and \<open>demon\<close> are both empty, whatever the field holds; when
  it occurs, \<open>angel\<close> is the trimmed text before the first glyph and \<open>demon\<close> is the
  trimmed text between the first glyph and the second one, or the end of the value when
  there is no second glyph (so it is empty when nothing follows). The record takes both
  from the \<open>Angel/Demon\<close> field of its block.
\<close>

theorem angel_demon_split:
  "(arrow \<notin> set ad \<longrightarrow> angel_demon ad = ([], []))
   \<and> (arrow \<notin> set a \<and> arrow \<notin> set d \<longrightarrow> angel_demon (a @ arrow # d) = (strip a, strip d))
   \<and> (arrow \<notin> set a \<longrightarrow> angel_demon (a @ [arrow]) = (strip a, []))
   \<and> (arrow \<notin> set a \<and> arrow \<notin> set d \<longrightarrow>
        angel_demon (a @ arrow # d @ arrow # r) = (strip a, strip d))
   \<and> (card_of U W D R b = Inr (Some c) \<longrightarrow>
        (c_angel c, c_demon c) = angel_demon (field b (ascii ''Angel/Demon'')))"
proof -
  have "arrow \<notin> set a \<longrightarrow> angel_demon (a @ [arrow]) = (strip a, [])"
    using angel_demon_one [of a "[]"] by (simp add: strip_Nil)
  moreover have "card_of U W D R b = Inr (Some c) \<longrightarrow>
      (c_angel c, c_demon c) = angel_demon (field b (ascii ''Angel/Demon''))"
    by (simp add: card_of_fields(5,6))
  ultimately show ?thesis
    using angel_demon_none [of ad] angel_demon_one [of a d] angel_demon_more [of a d r]
    by blast
qed

theorem angel_demon_split_witness:
  "angel_demon (ascii ''Azazel only'') = ([], [])
   \<and> angel_demon (ascii ''Michael '' @ arrow # ascii '' Belial'') = (ascii ''Michael'', ascii ''Belial'')
   \<and> angel_demon (ascii ''Michael '' @ [arrow]) = (ascii ''Michael'', [])
   \<and> angel_demon (ascii ''Michael '' @ arrow # ascii '' Belial'' @ arrow # ascii ''x'')
       = (ascii ''Michael'', ascii ''Belial'')"
proof -
  have n: "arrow \<notin> set (ascii ''Azazel only'')" "arrow \<notin> set (ascii ''Michael '')"
    "arrow \<notin> set (ascii '' Belial'')"
    by (simp_all add: arrow_def ascii_def)
  have s: "strip (ascii ''Michael '') = ascii ''Michael''"
    "strip (ascii '' Belial'') = ascii ''Belial''"
    by (simp_all add: ascii_def strip_def lstrip_def rstrip_def is_space_def)
  have "arrow \<notin> set (ascii ''Azazel only'') \<longrightarrow> angel_demon (ascii ''Azazel only'') = ([], [])"
    and "arrow \<notin> set (ascii ''Michael '') \<and> arrow \<notin> set (ascii '' Belial'') \<longrightarrow>
      angel_demon (ascii ''Michael '' @ arrow # ascii '' Belial'')
      = (strip (ascii ''Michael ''), strip (ascii '' Belial''))"
    and "arrow \<notin> set (ascii ''Michael '') \<longrightarrow>
      angel_demon (ascii ''Michael '' @ [arrow]) = (strip (ascii ''Michael ''), [])"
    and "arrow \<notin> set (ascii ''Michael '') \<and> arrow \<notin> set (ascii '' Belial'') \<longrightarrow>
      angel_demon (ascii ''Michael '' @ arrow # ascii '' Belial'' @ arrow # ascii ''x'')
      = (strip (ascii ''Michael ''), strip (ascii '' Belial''))"
    using angel_demon_split [of "ascii ''Azazel only''" "ascii ''Michael ''" "ascii '' Belial''"
      "ascii ''x''"]
    by blast+
  with n s show ?thesis
    by simp
qed

text \<open>
  C5 as the claim words it fails where the glyph occurs twice: in \<open>A \<leftrightarrow> B \<leftrightarrow> C\<close> the text
  after the glyph is \<open>B \<leftrightarrow> C\<close>, and \<open>demon\<close> is \<open>B\<close>.
\<close>

theorem angel_demon_counterexample:
  "snd (angel_demon (ascii ''A '' @ [arrow] @ ascii '' B '' @ [arrow] @ ascii '' C'')) = ascii ''B''
   \<and> strip (ascii '' B '' @ [arrow] @ ascii '' C'') = ascii ''B '' @ [arrow] @ ascii '' C''
   \<and> ascii ''B'' \<noteq> ascii ''B '' @ [arrow] @ ascii '' C''"
  by (simp add: angel_demon_def arrow_def ascii_def strip_def lstrip_def rstrip_def is_space_def
      split_on.simps)

text \<open>
  C6, as the code has it. For every value of the \<open>Crystal\<close> field, \<open>crystal\<close> is the
  trimmed text before the first \<open>(\<close>, and the whole trimmed value when there is no \<open>(\<close>;
  \<open>chemistry\<close> is the trimmed text between the first \<open>(\<close> and the last \<open>)\<close> when that \<open>)\<close>
  comes after the first \<open>(\<close>, and empty when no \<open>)\<close> follows the first \<open>(\<close> or when there
  is no \<open>(\<close>. The record takes both from the \<open>Crystal\<close> field of its block.
\<close>

theorem crystal_decomposition:
  "(40 \<notin> set a \<and> 41 \<notin> set z \<longrightarrow>
      crystal_of (a @ 40 # m @ 41 # z) = strip a \<and> chem_of (a @ 40 # m @ 41 # z) = strip m)
   \<and> (40 \<notin> set a \<and> 41 \<notin> set r \<longrightarrow>
      crystal_of (a @ 40 # r) = strip a \<and> chem_of (a @ 40 # r) = [])
   \<and> (40 \<notin> set cl \<longrightarrow> crystal_of cl = strip cl \<and> chem_of cl = [])
   \<and> (card_of U W D R b = Inr (Some c) \<longrightarrow>
      c_crystal c = crystal_of (field b (ascii ''Crystal'')) \<and>
      c_chemistry c = chem_of (field b (ascii ''Crystal'')))"
proof -
  have "card_of U W D R b = Inr (Some c) \<longrightarrow>
      c_crystal c = crystal_of (field b (ascii ''Crystal'')) \<and>
      c_chemistry c = chem_of (field b (ascii ''Crystal''))"
    by (simp add: card_of_fields(7,8))
  then show ?thesis
    using crystal_before_paren [of a "m @ 41 # z"] chem_between [of a z m]
      crystal_before_paren [of a r] chem_unclosed [of a r]
      crystal_no_paren [of cl] chem_no_open [of cl]
    by blast
qed

theorem crystal_decomposition_witness:
  "crystal_of (ascii ''Quartz (SiO2)'') = ascii ''Quartz''
   \<and> chem_of (ascii ''Quartz (SiO2)'') = ascii ''SiO2''
   \<and> crystal_of (ascii ''Quartz (SiO2'') = ascii ''Quartz''
   \<and> chem_of (ascii ''Quartz (SiO2'') = []
   \<and> crystal_of (ascii ''Quartz'') = ascii ''Quartz''
   \<and> chem_of (ascii ''Quartz'') = []"
proof -
  have n: "40 \<notin> set (ascii ''Quartz '')" "41 \<notin> set ([]::ustr)" "41 \<notin> set (ascii ''SiO2'')"
    "40 \<notin> set (ascii ''Quartz'')"
    by (simp_all add: ascii_def)
  have s: "strip (ascii ''Quartz '') = ascii ''Quartz''" "strip (ascii ''SiO2'') = ascii ''SiO2''"
    "strip (ascii ''Quartz'') = ascii ''Quartz''"
    by (simp_all add: ascii_def strip_def lstrip_def rstrip_def is_space_def)
  have e: "ascii ''Quartz (SiO2)'' = ascii ''Quartz '' @ 40 # ascii ''SiO2'' @ 41 # []"
    "ascii ''Quartz (SiO2'' = ascii ''Quartz '' @ 40 # ascii ''SiO2''"
    by (simp_all add: ascii_def)
  have "40 \<notin> set (ascii ''Quartz '') \<and> 41 \<notin> set ([]::ustr) \<longrightarrow>
      crystal_of (ascii ''Quartz '' @ 40 # ascii ''SiO2'' @ 41 # []) = strip (ascii ''Quartz '') \<and>
      chem_of (ascii ''Quartz '' @ 40 # ascii ''SiO2'' @ 41 # []) = strip (ascii ''SiO2'')"
    and "40 \<notin> set (ascii ''Quartz '') \<and> 41 \<notin> set (ascii ''SiO2'') \<longrightarrow>
      crystal_of (ascii ''Quartz '' @ 40 # ascii ''SiO2'') = strip (ascii ''Quartz '') \<and>
      chem_of (ascii ''Quartz '' @ 40 # ascii ''SiO2'') = []"
    and "40 \<notin> set (ascii ''Quartz'') \<longrightarrow>
      crystal_of (ascii ''Quartz'') = strip (ascii ''Quartz'') \<and> chem_of (ascii ''Quartz'') = []"
    using crystal_decomposition [of "ascii ''Quartz ''" "[]" "ascii ''SiO2''" "ascii ''SiO2''"
      "ascii ''Quartz''"]
    by blast+
  with n s show ?thesis
    unfolding e by simp
qed

text \<open>
  C6 as the claim words it fails on a group that is not closed: \<open>crystal\<close> is then still
  the text before the \<open>(\<close>, not the whole value.
\<close>

theorem crystal_counterexample:
  "crystal_of (ascii ''Quartz (SiO2'') = ascii ''Quartz''
   \<and> chem_of (ascii ''Quartz (SiO2'') = []
   \<and> strip (ascii ''Quartz (SiO2'') = ascii ''Quartz (SiO2''
   \<and> ascii ''Quartz'' \<noteq> ascii ''Quartz (SiO2''"
  by (simp add: crystal_of_def chem_of_def rfind_chr_def ascii_def strip_def lstrip_def
      rstrip_def is_space_def split_on.simps)

section \<open>The matcher\<close>

lemma skip_Some: "skip m = Some (gs, rest) \<longleftrightarrow> (\<exists>gs'. m = Some (gs', rest) \<and> gs = [] # gs')"
  by (cases m rule: skip.cases) auto

lemma skip_None: "skip m = None \<longleftrightarrow> m = None"
  by (cases m rule: skip.cases) auto

lemma take1_Some:
  "take1 c m = Some (gs, rest) \<longleftrightarrow> (\<exists>gs'. m = Some (gs', rest) \<and> gs = [c] # gs')"
  by (cases "(c, m)" rule: take1.cases) auto

lemma take1_None: "take1 c m = None \<longleftrightarrow> m = None"
  by (cases "(c, m)" rule: take1.cases) auto

lemma grow_Some:
  "grow c m = Some (gs, rest) \<longleftrightarrow> (\<exists>g gs'. m = Some (g # gs', rest) \<and> gs = (c # g) # gs')"
  by (cases "(c, m)" rule: grow.cases) auto

lemma grow_None: "grow c m = None \<longleftrightarrow> m = None \<or> (\<exists>rest. m = Some ([], rest))"
  by (cases "(c, m)" rule: grow.cases) auto

lemma orelse_Some: "orelse a b = Some m \<longleftrightarrow> a = Some m \<or> (a = None \<and> b = Some m)"
  by (cases "(a, b)" rule: orelse.cases) auto

lemma orelse_None: "orelse a b = None \<longleftrightarrow> a = None \<and> b = None"
  by (cases "(a, b)" rule: orelse.cases) auto

lemmas step_simps = skip_Some skip_None take1_Some take1_None grow_Some grow_None
  orelse_Some orelse_None

lemma mtch_length: "mtch its bol s = Some (gs, rest) \<Longrightarrow> length gs = length its"
  by (induction its bol s arbitrary: gs rest rule: mtch.induct)
    (auto simp: step_simps split: if_splits)

lemma mtch_bol: "Bol \<notin> set its \<Longrightarrow> mtch its b s = mtch its True s"
  by (induction its b s rule: mtch.induct) auto

lemma mtch_bol_False: "Bol \<notin> set its \<Longrightarrow> mtch its False s = mtch its True s"
  by (rule mtch_bol)


lemma mtch_One_Some:
  assumes "Bol \<notin> set r"
  shows "mtch (One p # r) b s = Some (gs, rest) \<longleftrightarrow>
    (\<exists>c t gs'. s = c # t \<and> p c \<and> mtch r True t = Some (gs', rest) \<and> gs = [c] # gs')"
proof (cases s)
  case Nil
  then show ?thesis by simp
next
  case (Cons c t)
  then show ?thesis
    using mtch_bol [OF assms, of "c = 10" t] by (auto simp: step_simps)
qed

lemma mtch_One_None:
  assumes "Bol \<notin> set r"
  shows "mtch (One p # r) b s = None \<longleftrightarrow>
    (\<forall>c t. s = c # t \<and> p c \<longrightarrow> mtch r True t = None)"
proof (cases s)
  case Nil
  then show ?thesis by simp
next
  case (Cons c t)
  then show ?thesis
    using mtch_bol [OF assms, of "c = 10" t] by (auto simp: step_simps)
qed

lemma Bol_notin_lit: "Bol \<notin> set (lit k)"
  by (auto simp: lit_def)

lemma mtch_lit_Some:
  assumes "Bol \<notin> set r"
  shows "mtch (lit k @ r) b s = Some (gs, rest) \<longleftrightarrow>
    (\<exists>t gs'. s = k @ t \<and> mtch r True t = Some (gs', rest) \<and> gs = map (\<lambda>c. [c]) k @ gs')"
proof (induction k arbitrary: b s gs)
  case Nil
  then show ?case
    using mtch_bol [OF assms, of b s] by (simp add: lit_def)
next
  case (Cons x k)
  have nb: "Bol \<notin> set (lit k @ r)"
    using assms by (simp add: Bol_notin_lit)
  have "mtch (lit (x # k) @ r) b s = Some (gs, rest) \<longleftrightarrow>
      (\<exists>c t gs'. s = c # t \<and> x = c \<and> mtch (lit k @ r) True t = Some (gs', rest) \<and> gs = [c] # gs')"
    using mtch_One_Some [OF nb, of "(=) x" b s gs rest] by (simp add: lit_def)
  then show ?case
    by (auto simp: Cons.IH)
qed

lemma mtch_lit_None:
  assumes "Bol \<notin> set r"
  shows "mtch (lit k @ r) b s = None \<longleftrightarrow> (\<forall>t. s = k @ t \<longrightarrow> mtch r True t = None)"
proof (induction k arbitrary: b s)
  case Nil
  then show ?case
    using mtch_bol [OF assms, of b s] by (simp add: lit_def)
next
  case (Cons x k)
  have nb: "Bol \<notin> set (lit k @ r)"
    using assms by (simp add: Bol_notin_lit)
  have "mtch (lit (x # k) @ r) b s = None \<longleftrightarrow>
      (\<forall>c t. s = c # t \<and> x = c \<longrightarrow> mtch (lit k @ r) True t = None)"
    using mtch_One_None [OF nb, of "(=) x" b s] by (simp add: lit_def)
  then show ?case
    by (auto simp: Cons.IH)
qed

lemma mtch_Many_None_intro:
  assumes "Bol \<notin> set r"
    and "\<And>w u. s = w @ u \<Longrightarrow> list_all p w \<Longrightarrow> n \<le> length w \<Longrightarrow> mtch r True u = None"
  shows "mtch (Many p n # r) b s = None"
  using assms(2)
proof (induction s arbitrary: n b)
  case Nil
  then show ?case
    using mtch_bol [OF assms(1), of b "[]"] by (auto simp: step_simps)
next
  case (Cons c t)
  have a: "p c \<Longrightarrow> mtch (Many p (n - 1) # r) (c = 10) t = None"
  proof (rule Cons.IH)
    fix w u
    assume "p c" "t = w @ u" "list_all p w" "n - 1 \<le> length w"
    then show "mtch r True u = None"
      using Cons.prems [of "c # w" u] by simp
  qed
  have "n = 0 \<Longrightarrow> mtch r True (c # t) = None"
    using Cons.prems [of "[]" "c # t"] by simp
  then have "n = 0 \<Longrightarrow> mtch r b (c # t) = None"
    using mtch_bol [OF assms(1), of b "c # t"] by simp
  with a show ?case
    by (auto simp: step_simps)
qed

lemma mtch_Many_Some_elim:
  assumes "Bol \<notin> set r" and "mtch (Many p n # r) b s = Some (gs, rest)"
  shows "\<exists>w u gs'. s = w @ u \<and> list_all p w \<and> n \<le> length w \<and>
           mtch r True u = Some (gs', rest) \<and> gs = w # gs'"
  using assms(2)
proof (induction s arbitrary: n b gs)
  case Nil
  then show ?case
    using mtch_bol [OF assms(1), of b "[]"] by (auto simp: step_simps split: if_splits)
next
  case (Cons c t)
  from Cons.prems consider
    (more) g gs' where "p c" "mtch (Many p (n - 1) # r) (c = 10) t = Some (g # gs', rest)"
      "gs = (c # g) # gs'"
    | (stop) gs' where "n = 0" "mtch r b (c # t) = Some (gs', rest)" "gs = [] # gs'"
    by (auto simp: step_simps split: if_splits)
  then show ?case
  proof cases
    case more
    from Cons.IH [OF more(2)] obtain w u where
      "t = w @ u" "list_all p w" "n - 1 \<le> length w" "mtch r True u = Some (gs', rest)" "g = w"
      by auto
    with more show ?thesis
      by (intro exI [of _ "c # w"] exI [of _ u] exI [of _ gs']) auto
  next
    case stop
    then show ?thesis
      using mtch_bol [OF assms(1), of b "c # t"]
      by (intro exI [of _ "[]"] exI [of _ "c # t"] exI [of _ gs']) auto
  qed
qed

lemma mtch_Many_Some_intro:
  assumes "Bol \<notin> set r" and "list_all p w" and "n \<le> length w"
    and "mtch r True u = Some (gs, rest)"
    and "\<And>w' u'. w @ u = w' @ u' \<Longrightarrow> list_all p w' \<Longrightarrow> length w < length w' \<Longrightarrow>
           mtch r True u' = None"
  shows "mtch (Many p n # r) b (w @ u) = Some (w # gs, rest)"
  using assms(2,3,5)
proof (induction w arbitrary: n b)
  case Nil
  have stop: "mtch r b u = Some (gs, rest)"
    using mtch_bol [OF assms(1), of b u] assms(4) by simp
  show ?case
  proof (cases u)
    case Nil
    with stop Nil.prems show ?thesis
      by (auto simp: step_simps)
  next
    case (Cons c t)
    have "mtch (Many p (n - 1) # r) (c = 10) t = None" if "p c"
    proof (rule mtch_Many_None_intro [OF assms(1)])
      fix w' u'
      assume "t = w' @ u'" "list_all p w'"
      then show "mtch r True u' = None"
        using Nil.prems(3) [of "c # w'" u'] Cons that by simp
    qed
    with stop Nil.prems Cons show ?thesis
      by (auto simp: step_simps)
  qed
next
  case (Cons c w)
  have "mtch (Many p (n - 1) # r) (c = 10) (w @ u) = Some (w # gs, rest)"
  proof (rule Cons.IH)
    show "list_all p w" using Cons.prems(1) by simp
    show "n - 1 \<le> length w" using Cons.prems(2) by simp
    fix w' u'
    assume "w @ u = w' @ u'" "list_all p w'" "length w < length w'"
    then show "mtch r True u' = None"
      using Cons.prems(3) [of "c # w'" u'] Cons.prems(1) by simp
  qed
  with Cons.prems(1) show ?case
    by (auto simp: step_simps)
qed

lemma mtch_Many_last:
  "mtch [Many q n] b s =
     (if n \<le> length (takeWhile q s) then Some ([takeWhile q s], dropWhile q s) else None)"
proof (induction s arbitrary: n b)
  case Nil
  then show ?case by simp
next
  case (Cons c t)
  show ?case
  proof (cases "q c")
    case True
    then show ?thesis
      by (cases n) (auto simp: Cons.IH step_simps)
  next
    case False
    then show ?thesis
      by (auto simp: step_simps)
  qed
qed

lemma is_space_nl: "is_space 10"
  by (simp add: is_space_def)

lemma not_space_not_nl: "\<not> is_space c \<Longrightarrow> c \<noteq> 10"
  using is_space_nl by auto

lemma strip_nonspace: "\<not> is_space c \<Longrightarrow> strip (c # t) = rstrip (c # t)"
  by (simp add: strip_def lstrip_def)

lemma strip_one_space: "is_space c \<Longrightarrow> strip [c] = []"
  by (simp add: strip_def lstrip_def rstrip_def)

lemma value_after_nonspace:
  "\<not> is_space c \<Longrightarrow> value_after (c # t) = Some (rstrip (c # takeWhile (\<lambda>c. c \<noteq> 10) t))"
  using not_space_not_nl [of c] by (simp add: value_after_def)

lemma value_after_space:
  "is_space c \<Longrightarrow> value_after (c # t) =
     (if dropWhile is_space t \<noteq> [] then value_after t
      else if c \<noteq> 10 \<or> list_ex (\<lambda>c. c \<noteq> 10) t then Some [] else None)"
  by (simp add: value_after_def)

lemma value_after_None:
  "value_after t = None \<longleftrightarrow> dropWhile is_space t = [] \<and> \<not> list_ex (\<lambda>c. c \<noteq> 10) t"
  by (simp add: value_after_def Let_def)

lemma takeWhile_all_nl: "\<not> list_ex (\<lambda>c. c \<noteq> 10) t \<Longrightarrow> takeWhile (\<lambda>c. c \<noteq> 10) t = []"
  by (cases t) auto

lemma tail_value:
  "(case mtch tail_pat b t of
      None \<Rightarrow> value_after t = None
    | Some (gs, rest) \<Rightarrow> value_after t = Some (strip (last gs)))"
proof (induction t arbitrary: b)
  case Nil
  show ?case
    by (simp add: tail_pat_def value_after_def)
next
  case (Cons c t)
  have step: "mtch tail_pat b (c # t) =
      orelse (if is_space c then grow c (mtch tail_pat (c = 10) t) else None)
             (skip (mtch [Many (\<lambda>c. c \<noteq> 10) 1] b (c # t)))"
    by (simp add: tail_pat_def)
  show ?case
  proof (cases "is_space c")
    case False
    then show ?thesis
      using not_space_not_nl [of c]
      by (simp add: step mtch_Many_last value_after_nonspace strip_nonspace)
  next
    case sp: True
    show ?thesis
    proof (cases "mtch tail_pat (c = 10) t")
      case None
      with Cons.IH [of "c = 10"] have v: "value_after t = None"
        by simp
      then have tw: "takeWhile (\<lambda>c. c \<noteq> 10) t = []"
        by (simp add: value_after_None takeWhile_all_nl)
      show ?thesis
        using sp None v tw
        by (auto simp: step mtch_Many_last value_after_space value_after_None strip_one_space)
    next
      case (Some m)
      obtain gs rest where m: "m = (gs, rest)"
        by (cases m)
      with Some have "length gs = 2"
        using mtch_length [of tail_pat "c = 10" t gs rest] by (simp add: tail_pat_def)
      then obtain g1 g2 where gs: "gs = [g1, g2]"
        by (cases gs; cases "tl gs") auto
      from Cons.IH [of "c = 10"] Some m gs have v: "value_after t = Some (strip g2)"
        by simp
      then have "value_after (c # t) = Some (strip g2)"
        using sp by (auto simp: value_after_space value_after_def Let_def split: if_splits)
      then show ?thesis
        using sp Some m gs by (simp add: step)
    qed
  qed
qed

lemma tail_None: "mtch tail_pat b t = None \<longleftrightarrow> value_after t = None"
  using tail_value [of t b] by (auto split: option.splits)

lemma tail_Some: "mtch tail_pat b t = Some (gs, rest) \<Longrightarrow> value_after t = Some (strip (last gs))"
  using tail_value [of t b] by simp

section \<open>Searching, and the field pattern\<close>

lemma search_bol: "Bol \<notin> set its \<Longrightarrow> search its b s = search its True s"
proof (induction s arbitrary: b)
  case Nil
  then show ?case
    using mtch_bol [of its b "[]"] by simp
next
  case (Cons c t)
  then show ?case
    using mtch_bol [of its b "c # t"] by simp
qed

lemma search_hit: "mtch its b s = Some m \<Longrightarrow> search its b s = Some m"
  by (cases s) simp_all

lemma search_skip:
  assumes "Bol \<notin> set its"
    and "\<And>p1 p2. pre = p1 @ p2 \<Longrightarrow> p2 \<noteq> [] \<Longrightarrow> mtch its True (p2 @ s) = None"
  shows "search its b (pre @ s) = search its True s"
  using assms(2)
proof (induction pre arbitrary: b)
  case Nil
  show ?case
    using search_bol [OF assms(1)] by simp
next
  case (Cons c pre)
  have "mtch its True ((c # pre) @ s) = None"
    using Cons.prems [of "[]" "c # pre"] by simp
  then have h: "mtch its b (c # pre @ s) = None"
    using mtch_bol [OF assms(1), of b "c # pre @ s"] by simp
  have "search its (c = 10) (pre @ s) = search its True s"
  proof (rule Cons.IH)
    fix p1 p2
    assume "pre = p1 @ p2" "p2 \<noteq> []"
    then show "mtch its True (p2 @ s) = None"
      using Cons.prems [of "c # p1" p2] by simp
  qed
  with h show ?case
    by simp
qed

lemma search_None_intro:
  assumes "Bol \<notin> set its"
    and "\<And>p1 p2. s = p1 @ p2 \<Longrightarrow> mtch its True p2 = None"
  shows "search its b s = None"
proof -
  have "search its b (s @ []) = search its True []"
  proof (rule search_skip [OF assms(1)])
    fix p1 p2
    assume "s = p1 @ p2"
    then show "mtch its True (p2 @ []) = None"
      using assms(2) by simp
  qed
  moreover have "mtch its True [] = None"
    using assms(2) [of s "[]"] by simp
  ultimately show ?thesis
    by simp
qed

lemma search_Some_elim:
  assumes "Bol \<notin> set its" and "search its b s = Some m"
  shows "\<exists>p1 p2. s = p1 @ p2 \<and> mtch its True p2 = Some m"
  using assms(2)
proof (induction s arbitrary: b)
  case Nil
  then show ?case
    using mtch_bol [OF assms(1), of b "[]"] by simp
next
  case (Cons c t)
  show ?case
  proof (cases "mtch its b (c # t)")
    case None
    with Cons.prems have "search its (c = 10) t = Some m"
      by simp
    from Cons.IH [OF this] obtain p1 p2 where "t = p1 @ p2" "mtch its True p2 = Some m"
      by auto
    then show ?thesis
      by (intro exI [of _ "c # p1"] exI [of _ p2]) simp
  next
    case (Some m')
    with Cons.prems have "mtch its True (c # t) = Some m"
      using mtch_bol [OF assms(1), of b "c # t"] by simp
    then show ?thesis
      by (intro exI [of _ "[]"] exI [of _ "c # t"]) simp
  qed
qed

lemma search_None_elim:
  assumes "Bol \<notin> set its" "search its b (p1 @ p2) = None"
  shows "mtch its True p2 = None"
  using assms(2)
proof (induction p1 arbitrary: b)
  case Nil
  then have "mtch its b p2 = None"
    by (cases p2) (auto simp: step_simps)
  then show ?case
    using mtch_bol [OF assms(1), of b p2] by simp
next
  case (Cons c p1)
  then have "search its (c = 10) (p1 @ p2) = None"
    by (auto simp: step_simps)
  then show ?case
    by (rule Cons.IH)
qed

lemma search_Some_leftmost:
  assumes "Bol \<notin> set its" and "search its b s = Some m"
  shows "\<exists>p1 p2. s = p1 @ p2 \<and> mtch its True p2 = Some m \<and>
           (\<forall>q1 q2. s = q1 @ q2 \<and> length q1 < length p1 \<longrightarrow> mtch its True q2 = None)"
  using assms(2)
proof (induction s arbitrary: b)
  case Nil
  then show ?case
    using mtch_bol [OF assms(1), of b "[]"] by simp
next
  case (Cons c t)
  show ?case
  proof (cases "mtch its b (c # t)")
    case None
    with Cons.prems have "search its (c = 10) t = Some m"
      by simp
    from Cons.IH [OF this] obtain p1 p2 where p: "t = p1 @ p2" "mtch its True p2 = Some m"
      "\<forall>q1 q2. t = q1 @ q2 \<and> length q1 < length p1 \<longrightarrow> mtch its True q2 = None"
      by blast
    have n: "mtch its True (c # t) = None"
      using None mtch_bol [OF assms(1), of b "c # t"] by simp
    have "mtch its True q2 = None" if q: "c # t = q1 @ q2" "length q1 < length (c # p1)" for q1 q2
    proof (cases q1)
      case Nil
      with q(1) n show ?thesis
        by simp
    next
      case (Cons x q1')
      with q have "t = q1' @ q2" "length q1' < length p1"
        by simp_all
      with p(3) show ?thesis
        by blast
    qed
    with p(1,2) show ?thesis
      by (intro exI [of _ "c # p1"] exI [of _ p2]) simp
  next
    case (Some m')
    with Cons.prems have "mtch its True (c # t) = Some m"
      using mtch_bol [OF assms(1), of b "c # t"] by simp
    then show ?thesis
      by (intro exI [of _ "[]"] exI [of _ "c # t"]) simp
  qed
qed

lemma takeWhile_stop: "\<not> p x \<Longrightarrow> takeWhile p (k @ x # t) = takeWhile p k"
  by (induction k) auto

lemma key_split_unique:
  assumes "w @ k @ 58 # t = w' @ k @ 58 # t'" "list_all is_space w" "list_all is_space w'"
  shows "w = w' \<and> t = t'"
proof -
  have n: "\<not> is_space 58"
    by (simp add: is_space_def)
  have "takeWhile is_space (w @ k @ 58 # t) = w @ takeWhile is_space k"
    using assms(2) n by (simp add: takeWhile_append2 list_all_iff takeWhile_stop)
  moreover have "takeWhile is_space (w' @ k @ 58 # t') = w' @ takeWhile is_space k"
    using assms(3) n by (simp add: takeWhile_append2 list_all_iff takeWhile_stop)
  ultimately have "w = w'"
    using assms(1) by simp
  with assms(1) show ?thesis
    by simp
qed

lemma Bol_notin_field_pat: "Bol \<notin> set (field_pat k)"
  by (simp add: field_pat_def Bol_notin_lit)

lemma field_pat_tail: "field_pat k = One ((=) 45) # Many is_space 0 # lit k @ One ((=) 58) # tail_pat"
  by (simp add: field_pat_def tail_pat_def)

lemma Bol_notin_tail: "Bol \<notin> set tail_pat" "Bol \<notin> set (One ((=) 58) # tail_pat)"
  "Bol \<notin> set (lit k @ One ((=) 58) # tail_pat)"
  "Bol \<notin> set (Many is_space 0 # lit k @ One ((=) 58) # tail_pat)"
  by (simp_all add: tail_pat_def Bol_notin_lit)

lemma key_mtch_Some:
  "mtch (lit k @ One ((=) 58) # tail_pat) True u = Some (gs, rest) \<longleftrightarrow>
     (\<exists>t gs2. u = k @ 58 # t \<and> mtch tail_pat True t = Some (gs2, rest) \<and>
        gs = map (\<lambda>c. [c]) k @ [58] # gs2)"
  by (auto simp: mtch_lit_Some [OF Bol_notin_tail(2)] mtch_One_Some [OF Bol_notin_tail(1)])

lemma key_mtch_None:
  "mtch (lit k @ One ((=) 58) # tail_pat) True u = None \<longleftrightarrow>
     (\<forall>t. u = k @ 58 # t \<longrightarrow> mtch tail_pat True t = None)"
  by (auto simp: mtch_lit_None [OF Bol_notin_tail(2)] mtch_One_None [OF Bol_notin_tail(1)])

lemma field_mtch_elim:
  assumes "mtch (field_pat k) b s = Some (gs, rest)"
  shows "\<exists>w t gs2. s = 45 # w @ k @ 58 # t \<and> list_all is_space w \<and>
           mtch tail_pat True t = Some (gs2, rest) \<and> last gs = last gs2"
proof -
  from assms obtain s1 gs1 where s: "s = 45 # s1"
    and m1: "mtch (Many is_space 0 # lit k @ One ((=) 58) # tail_pat) True s1 = Some (gs1, rest)"
    and g: "gs = [45] # gs1"
    by (auto simp: field_pat_tail mtch_One_Some [OF Bol_notin_tail(4)])
  from mtch_Many_Some_elim [OF Bol_notin_tail(3) m1] obtain w u gs' where
    u: "s1 = w @ u" "list_all is_space w"
    and m2: "mtch (lit k @ One ((=) 58) # tail_pat) True u = Some (gs', rest)"
    and g1: "gs1 = w # gs'"
    by auto
  from m2 obtain t gs2 where t: "u = k @ 58 # t"
    and m3: "mtch tail_pat True t = Some (gs2, rest)"
    and g2: "gs' = map (\<lambda>c. [c]) k @ [58] # gs2"
    by (auto simp: key_mtch_Some)
  have "gs2 \<noteq> []"
    using mtch_length [OF m3] by (auto simp: tail_pat_def)
  then have "last gs = last gs2"
    using g g1 g2 by simp
  with s u t m3 show ?thesis
    by auto
qed

lemma field_mtch_at:
  assumes "list_all is_space w"
  shows "mtch tail_pat True t = None \<Longrightarrow> mtch (field_pat k) b (45 # w @ k @ 58 # t) = None"
    and "mtch tail_pat True t = Some (gs2, rest) \<Longrightarrow>
         \<exists>gs. mtch (field_pat k) b (45 # w @ k @ 58 # t) = Some (gs, rest) \<and> last gs = last gs2"
proof -
  let ?r = "lit k @ One ((=) 58) # tail_pat"
  {
    assume n: "mtch tail_pat True t = None"
    have "mtch (Many is_space 0 # ?r) True (w @ k @ 58 # t) = None"
    proof (rule mtch_Many_None_intro [OF Bol_notin_tail(3)])
      fix w' u'
      assume a: "w @ k @ 58 # t = w' @ u'" "list_all is_space w'"
      show "mtch ?r True u' = None"
      proof (rule ccontr)
        assume "mtch ?r True u' \<noteq> None"
        then obtain t' gs' rest' where u: "u' = k @ 58 # t'"
          and m': "mtch tail_pat True t' = Some (gs', rest')"
          by (auto simp: key_mtch_Some)
        have "w @ k @ 58 # t = w' @ k @ 58 # t'"
          using a(1) u by simp
        from key_split_unique [OF this assms a(2)] have "t = t'"
          by simp
        with m' n show False
          by simp
      qed
    qed
    then show "mtch (field_pat k) b (45 # w @ k @ 58 # t) = None"
      by (simp add: field_pat_tail mtch_bol_False [OF Bol_notin_tail(4)])
  }
  {
    assume m: "mtch tail_pat True t = Some (gs2, rest)"
    have k: "mtch ?r True (k @ 58 # t) = Some (map (\<lambda>c. [c]) k @ [58] # gs2, rest)"
      using m by (simp add: key_mtch_Some)
    have "mtch (Many is_space 0 # ?r) True (w @ k @ 58 # t)
          = Some (w # map (\<lambda>c. [c]) k @ [58] # gs2, rest)"
    proof (rule mtch_Many_Some_intro [OF Bol_notin_tail(3) assms _ k])
      show "0 \<le> length w" by simp
    next
      fix w' u'
      assume a: "w @ k @ 58 # t = w' @ u'" "list_all is_space w'" "length w < length w'"
      show "mtch ?r True u' = None"
      proof (rule ccontr)
        assume "mtch ?r True u' \<noteq> None"
        then obtain t' gs' rest' where u: "u' = k @ 58 # t'"
          and m': "mtch tail_pat True t' = Some (gs', rest')"
          by (auto simp: key_mtch_Some)
        have "w @ k @ 58 # t = w' @ k @ 58 # t'"
          using a(1) u by simp
        from key_split_unique [OF this assms a(2)] have "w = w'"
          by simp
        with a(3) show False
          by simp
      qed
    qed
    moreover have "gs2 \<noteq> []"
      using mtch_length [OF m] by (auto simp: tail_pat_def)
    ultimately show "\<exists>gs. mtch (field_pat k) b (45 # w @ k @ 58 # t) = Some (gs, rest) \<and>
        last gs = last gs2"
      by (simp add: field_pat_tail mtch_bol_False [OF Bol_notin_tail(4)])
  }
qed

lemma field_value:
  assumes "b = pre @ 45 # w @ k @ 58 # t" "list_all is_space w" "value_after t = Some v"
    and "\<And>pre' w' t'. b = pre' @ 45 # w' @ k @ 58 # t' \<Longrightarrow> list_all is_space w' \<Longrightarrow>
           length pre' < length pre \<Longrightarrow> value_after t' = None"
  shows "field b k = v"
proof -
  have "search (field_pat k) True (pre @ 45 # w @ k @ 58 # t)
        = search (field_pat k) True (45 # w @ k @ 58 # t)"
  proof (rule search_skip [OF Bol_notin_field_pat])
    fix p1 p2
    assume p: "pre = p1 @ p2" "p2 \<noteq> []"
    show "mtch (field_pat k) True (p2 @ 45 # w @ k @ 58 # t) = None"
    proof (rule ccontr)
      assume "mtch (field_pat k) True (p2 @ 45 # w @ k @ 58 # t) \<noteq> None"
      then obtain gs rest where "mtch (field_pat k) True (p2 @ 45 # w @ k @ 58 # t) = Some (gs, rest)"
        by auto
      from field_mtch_elim [OF this] obtain w' t' gs2 where
        e: "p2 @ 45 # w @ k @ 58 # t = 45 # w' @ k @ 58 # t'" "list_all is_space w'"
        and m: "mtch tail_pat True t' = Some (gs2, rest)"
        by auto
      have "b = p1 @ 45 # w' @ k @ 58 # t'"
        using assms(1) p(1) e(1) by simp
      moreover have "length p1 < length pre"
        using p by simp
      ultimately have "value_after t' = None"
        using assms(4) e(2) by blast
      with tail_Some [OF m] show False
        by simp
    qed
  qed
  moreover obtain gs2 rest where m: "mtch tail_pat True t = Some (gs2, rest)"
    using assms(3) tail_None [of True t] by (cases "mtch tail_pat True t") auto
  moreover from field_mtch_at(2) [OF assms(2) m] obtain gs where
    g: "mtch (field_pat k) True (45 # w @ k @ 58 # t) = Some (gs, rest)" "last gs = last gs2"
    by blast
  moreover have "v = strip (last gs2)"
    using tail_Some [OF m] assms(3) by simp
  ultimately show ?thesis
    using assms(1) search_hit [OF g(1)] by (simp add: field_def re_search_def)
qed

lemma field_absent:
  assumes "\<And>pre w t. b = pre @ 45 # w @ k @ 58 # t \<Longrightarrow> list_all is_space w \<Longrightarrow>
             value_after t = None"
  shows "re_search (field_pat k) b = None" and "field b k = []"
proof -
  have "search (field_pat k) True b = None"
  proof (rule search_None_intro [OF Bol_notin_field_pat])
    fix p1 p2
    assume p: "b = p1 @ p2"
    show "mtch (field_pat k) True p2 = None"
    proof (rule ccontr)
      assume "mtch (field_pat k) True p2 \<noteq> None"
      then obtain gs rest where "mtch (field_pat k) True p2 = Some (gs, rest)"
        by auto
      from field_mtch_elim [OF this] obtain w t gs2 where
        e: "p2 = 45 # w @ k @ 58 # t" "list_all is_space w"
        and m: "mtch tail_pat True t = Some (gs2, rest)"
        by auto
      with p assms [of p1 w t] tail_Some [OF m] show False
        by simp
    qed
  qed
  then show "re_search (field_pat k) b = None" and "field b k = []"
    by (simp_all add: field_def re_search_def)
qed

lemma field_found:
  assumes "field b k \<noteq> []"
  shows "\<exists>pre w t. b = pre @ 45 # w @ k @ 58 # t \<and> list_all is_space w \<and>
           value_after t = Some (field b k)"
proof -
  from assms obtain gs rest where s: "search (field_pat k) True b = Some (gs, rest)"
    and f: "field b k = strip (last gs)"
    by (auto simp: field_def re_search_def split: option.splits)
  from search_Some_elim [OF Bol_notin_field_pat s] obtain p1 p2 where
    p: "b = p1 @ p2" "mtch (field_pat k) True p2 = Some (gs, rest)"
    by auto
  from field_mtch_elim [OF p(2)] obtain w t gs2 where
    "p2 = 45 # w @ k @ 58 # t" "list_all is_space w" "mtch tail_pat True t = Some (gs2, rest)"
    "last gs = last gs2"
    by auto
  with p f tail_Some [of True t gs2 rest] show ?thesis
    by auto
qed

lemma value_after_same_line:
  assumes "list_all is_space w" "\<not> is_space c" "10 \<notin> set x"
  shows "value_after (w @ c # x) = Some (strip (c # x))"
    and "value_after (w @ c # x @ 10 # y) = Some (strip (c # x))"
proof -
  have d: "dropWhile is_space (w @ c # z) = c # z" for z
    using assms(1,2) by (simp add: dropWhile_append2 list_all_iff)
  have t: "takeWhile (\<lambda>c. c \<noteq> 10) (c # x) = c # x"
    "takeWhile (\<lambda>c. c \<noteq> 10) (c # x @ 10 # y) = c # x"
    using assms(2,3) not_space_not_nl [of c] takeWhile_absent [of 10 x]
      takeWhile_upto [of 10 x y]
    by simp_all
  show "value_after (w @ c # x) = Some (strip (c # x))"
    using d [of x] t(1) assms(2) by (simp add: value_after_def strip_nonspace)
  show "value_after (w @ c # x @ 10 # y) = Some (strip (c # x))"
    using d [of "x @ 10 # y"] t(2) assms(2) by (simp add: value_after_def strip_nonspace)
qed

lemma no_dash_before:
  assumes "45 \<notin> set h" "h @ r = pre' @ 45 # r'"
  shows "length h \<le> length pre'"
proof (rule ccontr)
  assume "\<not> length h \<le> length pre'"
  then have l: "length pre' < length h"
    by simp
  then have "(h @ r) ! length pre' = h ! length pre'"
    by (simp add: nth_append)
  moreover have "(pre' @ 45 # r') ! length pre' = 45"
    by simp
  ultimately have "h ! length pre' = 45"
    using assms(2) by simp
  then have "45 \<in> set h"
    using l nth_mem [of "length pre'" h] by simp
  with assms(1) show False
    by simp
qed

lemma field_at_first_dash:
  assumes "45 \<notin> set h" "list_all is_space w" "value_after t = Some v"
  shows "field (h @ 45 # w @ k @ 58 # t) k = v"
proof (rule field_value [of _ h w k t])
  show "h @ 45 # w @ k @ 58 # t = h @ 45 # w @ k @ 58 # t"
    by simp
  show "list_all is_space w"
    by (rule assms(2))
  show "value_after t = Some v"
    by (rule assms(3))
next
  fix pre' w' t'
  assume "h @ 45 # w @ k @ 58 # t = pre' @ 45 # w' @ k @ 58 # t'"
    and "length pre' < length h"
  then show "value_after t' = None"
    using no_dash_before [OF assms(1), of _ pre'] by fastforce
qed

lemma rstrip_nonempty: "\<not> is_space c \<Longrightarrow> rstrip (c # x) \<noteq> []"
  by (auto simp: rstrip_def dropWhile_eq_Nil_conv)

lemma value_after_text:
  assumes "\<exists>c \<in> set t. \<not> is_space c"
  shows "\<exists>v. value_after t = Some v \<and> v \<noteq> []"
proof -
  have ne: "dropWhile is_space t \<noteq> []"
    using assms by (auto simp: dropWhile_eq_Nil_conv)
  then obtain c y where d: "dropWhile is_space t = c # y"
    by (cases "dropWhile is_space t") auto
  have c: "\<not> is_space c"
    using hd_dropWhile [OF ne] d by simp
  then have "takeWhile (\<lambda>c. c \<noteq> 10) (c # y) = c # takeWhile (\<lambda>c. c \<noteq> 10) y"
    using not_space_not_nl [of c] by simp
  then have "value_after t = Some (rstrip (c # takeWhile (\<lambda>c. c \<noteq> 10) y))"
    using d by (simp add: value_after_def)
  with rstrip_nonempty [OF c] show ?thesis
    by simp
qed

lemma value_after_blank:
  assumes "list_all is_space t"
  shows "value_after t = None \<or> value_after t = Some []"
proof -
  have "dropWhile is_space t = []"
    using assms by (simp add: list_all_iff)
  then show ?thesis
    by (simp add: value_after_def)
qed

lemma field_value_on_line:
  assumes b: "b = pre @ 45 # w @ k @ 58 # t" and w: "list_all is_space w"
    and t: "\<exists>c \<in> set t. \<not> is_space c" and k: "45 \<notin> set k"
  shows "field b k \<noteq> []"
proof -
  from value_after_text [OF t] have "value_after t \<noteq> None"
    by auto
  then obtain gs0 rest0 where "mtch tail_pat True t = Some (gs0, rest0)"
    using tail_None [of True t] by (cases "mtch tail_pat True t") auto
  from field_mtch_at(2) [OF w this, of k True] obtain gs1 where
    here: "mtch (field_pat k) True (45 # w @ k @ 58 # t) = Some (gs1, rest0)"
    by blast
  have "search (field_pat k) True b \<noteq> None"
  proof
    assume "search (field_pat k) True b = None"
    then have "search (field_pat k) True (pre @ 45 # w @ k @ 58 # t) = None"
      using b by simp
    from search_None_elim [OF Bol_notin_field_pat this] here show False
      by simp
  qed
  then obtain gs rest where s: "search (field_pat k) True b = Some (gs, rest)"
    by (cases "search (field_pat k) True b") auto
  then have f: "field b k = strip (last gs)"
    by (simp add: field_def re_search_def)
  from search_Some_leftmost [OF Bol_notin_field_pat s] obtain p1 p2 where
    p: "b = p1 @ p2" "mtch (field_pat k) True p2 = Some (gs, rest)"
    and l: "\<forall>q1 q2. b = q1 @ q2 \<and> length q1 < length p1 \<longrightarrow> mtch (field_pat k) True q2 = None"
    by blast
  have le: "length p1 \<le> length pre"
  proof (rule ccontr)
    assume "\<not> length p1 \<le> length pre"
    then have "length pre < length p1"
      by simp
    with l b have "mtch (field_pat k) True (45 # w @ k @ 58 # t) = None"
      by blast
    with here show False
      by simp
  qed
  from field_mtch_elim [OF p(2)] obtain w' t' gs2 where
    e: "p2 = 45 # w' @ k @ 58 # t'" "list_all is_space w'"
    and m: "mtch tail_pat True t' = Some (gs2, rest)" "last gs = last gs2"
    by blast
  have v: "value_after t' = Some (field b k)"
    using tail_Some [OF m(1)] m(2) f by simp
  from b p(1) le obtain u where u: "pre = p1 @ u" "p2 = u @ 45 # w @ k @ 58 # t"
    by (auto simp: append_eq_append_conv2)
  have "\<exists>c \<in> set t'. \<not> is_space c"
  proof (cases u)
    case Nil
    with u(2) e(1) have "w' @ k @ 58 # t' = w @ k @ 58 # t"
      by simp
    from key_split_unique [OF this e(2) w] t show ?thesis
      by simp
  next
    case (Cons x u')
    let ?h = "w' @ k @ [58]" and ?r = "45 # w @ k @ 58 # t"
    from Cons u(2) e(1) have eq: "?h @ t' = u' @ ?r"
      by simp
    have d: "\<not> is_space 45" "45 \<noteq> (58::nat)"
      by (simp_all add: is_space_def)
    then have h: "45 \<notin> set ?h"
      using e(2) k by (auto simp: list_all_iff)
    from no_dash_before [OF h eq] have len: "length ?h \<le> length u'" .
    have "t' = drop (length ?h) (?h @ t')"
      by simp
    also have "\<dots> = drop (length ?h) (u' @ ?r)"
      by (simp only: eq)
    also have "\<dots> = drop (length ?h) u' @ ?r"
      using len by simp
    finally have "set t' = set (drop (length ?h) u' @ ?r)"
      by simp
    then have "45 \<in> set t'"
      by simp
    with d(1) show ?thesis
      by blast
  qed
  from value_after_text [OF this] v show ?thesis
    by auto
qed

lemma field_blank:
  assumes "\<And>pre w t. b = pre @ 45 # w @ k @ 58 # t \<Longrightarrow> list_all is_space w \<Longrightarrow>
             list_all is_space t"
  shows "field b k = []"
proof (rule ccontr)
  assume "field b k \<noteq> []"
  from field_found [OF this] obtain pre w t where
    o: "b = pre @ 45 # w @ k @ 58 # t" "list_all is_space w" "value_after t = Some (field b k)"
    by blast
  from assms [OF o(1,2)] value_after_blank [of t] o(3) \<open>field b k \<noteq> []\<close> show False
    by auto
qed

text \<open>
  What the search of \<open>field\<close> amounts to, without the matcher. An occurrence of a key in
  a block is \<open>-\<close>, optional white space, the key taken literally and with its case, and
  \<open>:\<close>; its value is what \<open>value_after\<close> reads behind the colon. \<open>field\<close> returns the
  value of the leftmost occurrence that has one, and the empty string when no occurrence
  has one. When the first \<open>-\<close> of the block starts such an occurrence and the value stands
  on the line of the key, \<open>field\<close> returns the trimmed value of that line, and what comes
  after that line is ignored.
\<close>

theorem field_first_occurrence:
  "((\<forall>pre w t. b = pre @ 45 # w @ k @ 58 # t \<and> list_all is_space w \<longrightarrow> value_after t = None)
      \<longrightarrow> field b k = [])
   \<and> (b = pre @ 45 # w @ k @ 58 # t \<and> list_all is_space w \<and> value_after t = Some v \<and>
       (\<forall>pre' w' t'. b = pre' @ 45 # w' @ k @ 58 # t' \<and> list_all is_space w' \<and>
          length pre' < length pre \<longrightarrow> value_after t' = None)
      \<longrightarrow> field b k = v)
   \<and> (field b k \<noteq> [] \<longrightarrow>
       (\<exists>pre w t. b = pre @ 45 # w @ k @ 58 # t \<and> list_all is_space w \<and>
          value_after t = Some (field b k)))
   \<and> (list_all is_space w2 \<and> \<not> is_space c \<and> 10 \<notin> set x \<longrightarrow>
       value_after (w2 @ c # x) = Some (strip (c # x)) \<and>
       value_after (w2 @ c # x @ 10 # y) = Some (strip (c # x)))
   \<and> (45 \<notin> set h \<and> list_all is_space w \<and> list_all is_space w2 \<and> \<not> is_space c \<and>
       10 \<notin> set x \<longrightarrow>
       field (h @ 45 # w @ k @ 58 # w2 @ c # x @ 10 # y) k = strip (c # x))"
proof -
  have 1: "(\<forall>pre w t. b = pre @ 45 # w @ k @ 58 # t \<and> list_all is_space w \<longrightarrow> value_after t = None)
      \<longrightarrow> field b k = []"
    using field_absent(2) [of b k] by blast
  have 2: "b = pre @ 45 # w @ k @ 58 # t \<and> list_all is_space w \<and> value_after t = Some v \<and>
       (\<forall>pre' w' t'. b = pre' @ 45 # w' @ k @ 58 # t' \<and> list_all is_space w' \<and>
          length pre' < length pre \<longrightarrow> value_after t' = None)
      \<longrightarrow> field b k = v"
    using field_value [of b pre w k t v] by blast
  have 3: "field b k \<noteq> [] \<longrightarrow>
       (\<exists>pre w t. b = pre @ 45 # w @ k @ 58 # t \<and> list_all is_space w \<and>
          value_after t = Some (field b k))"
    using field_found [of b k] by blast
  have 4: "list_all is_space w2 \<and> \<not> is_space c \<and> 10 \<notin> set x \<longrightarrow>
       value_after (w2 @ c # x) = Some (strip (c # x)) \<and>
       value_after (w2 @ c # x @ 10 # y) = Some (strip (c # x))"
    using value_after_same_line(1) [of w2 c x] value_after_same_line(2) [of w2 c x y] by blast
  have 5: "field (h @ 45 # w @ k @ 58 # w2 @ c # x @ 10 # y) k = strip (c # x)"
    if a: "45 \<notin> set h" "list_all is_space w" "list_all is_space w2" "\<not> is_space c" "10 \<notin> set x"
    using field_at_first_dash [OF a(1,2) value_after_same_line(2) [OF a(3,4,5)]] .
  from 1 2 3 4 5 show ?thesis
    by blast
qed

theorem field_first_occurrence_witness:
  "field (ascii ''## Example'' @ [10] @ ascii ''- Key:   Value with spaces   '' @ [10] @
          ascii ''- Other: Something'') (ascii ''Key'') = ascii ''Value with spaces''
   \<and> field (ascii ''## Example'' @ [10] @ ascii ''- Key:   Value with spaces   '' @ [10] @
          ascii ''- Other: Something'') (ascii ''Missing'') = []
   \<and> field (ascii ''- Key: a'' @ [10] @ ascii ''- Key: b'') (ascii ''Key'') = ascii ''a''"
proof -
  let ?b = "ascii ''## Example'' @ [10] @ ascii ''- Key:   Value with spaces   '' @ [10] @
            ascii ''- Other: Something''"
  have e: "?b = (ascii ''## Example'' @ [10]) @ 45 # ascii '' '' @ ascii ''Key'' @ 58 #
             ascii ''   '' @ 86 # ascii ''alue with spaces   '' @ 10 # ascii ''- Other: Something''"
    by (simp add: ascii_def)
  have h: "45 \<notin> set (ascii ''## Example'' @ [10])" "list_all is_space (ascii '' '')"
    "list_all is_space (ascii ''   '')" "\<not> is_space 86" "10 \<notin> set (ascii ''alue with spaces   '')"
    by (simp_all add: ascii_def is_space_def)
  have v: "strip (86 # ascii ''alue with spaces   '') = ascii ''Value with spaces''"
    by (simp add: ascii_def strip_def lstrip_def rstrip_def is_space_def)
  have 1: "field ?b (ascii ''Key'') = ascii ''Value with spaces''"
    unfolding e
    using field_first_occurrence [where h = "ascii ''## Example'' @ [10]" and w = "ascii '' ''"
        and k = "ascii ''Key''" and ?w2.0 = "ascii ''   ''" and c = 86
        and x = "ascii ''alue with spaces   ''" and y = "ascii ''- Other: Something''"] h v
    by simp
  have m: "77 \<notin> set ?b"
    by (simp add: ascii_def)
  have "\<forall>pre w t. ?b = pre @ 45 # w @ ascii ''Missing'' @ 58 # t \<and> list_all is_space w \<longrightarrow>
      value_after t = None"
  proof (intro allI impI)
    fix pre w t
    assume "?b = pre @ 45 # w @ ascii ''Missing'' @ 58 # t \<and> list_all is_space w"
    then have "set ?b = set (pre @ 45 # w @ ascii ''Missing'' @ 58 # t)"
      by simp
    then have "77 \<in> set ?b"
      by (simp add: ascii_def)
    with m show "value_after t = None"
      by simp
  qed
  then have 2: "field ?b (ascii ''Missing'') = []"
    using field_first_occurrence [of ?b "ascii ''Missing''"] by blast
  have f: "ascii ''- Key: a'' @ [10] @ ascii ''- Key: b''
           = [] @ 45 # ascii '' '' @ ascii ''Key'' @ 58 # ascii '' a'' @ [10] @ ascii ''- Key: b''"
    by (simp add: ascii_def)
  have va: "value_after (ascii '' a'' @ [10] @ ascii ''- Key: b'') = Some (ascii ''a'')"
    by (simp add: value_after_def ascii_def rstrip_def is_space_def)
  have "\<forall>pre' w' t'. ascii ''- Key: a'' @ [10] @ ascii ''- Key: b''
          = pre' @ 45 # w' @ ascii ''Key'' @ 58 # t' \<and> list_all is_space w' \<and>
          length pre' < length ([]::ustr) \<longrightarrow> value_after t' = None"
    by simp
  with f va h(2) have 3: "field (ascii ''- Key: a'' @ [10] @ ascii ''- Key: b'') (ascii ''Key'') = ascii ''a''"
    using field_first_occurrence [of "ascii ''- Key: a'' @ [10] @ ascii ''- Key: b''" "ascii ''Key''"
        "[]" "ascii '' ''" "ascii '' a'' @ [10] @ ascii ''- Key: b''" "ascii ''a''"]
    by blast
  from 1 2 3 show ?thesis
    by simp
qed

text \<open>
  C7. The claim fails where the line of the key holds nothing after the colon and more
  text follows in the block. The capture \<open>([^\n]+)\<close> keeps a value on one line, but the
  \<open>\s*\<close> before it also matches line breaks, so the search goes on into the next line:
  for the block of the lines \<open>## X\<close>, \<open>- Key:\<close>, \<open>- Other: v\<close> and the key \<open>Key\<close>, \<open>field\<close>
  returns the whole next line \<open>- Other: v\<close>, where the line of the key has the empty
  value; so it does for \<open>App Pulls\<close> in the block \<open>## A\<close>, \<open>- App Pulls:\<close>, \<open>- Ray: red\<close>.
  The same empty line at the end of a block gives the empty string, and a value that
  stands on the line of the key is returned trimmed, a later line with the key being
  ignored.
\<close>

theorem field_empty_value_runs_on:
  "field (ascii ''## X'' @ [10] @ ascii ''- Key:'' @ [10] @ ascii ''- Other: v'') (ascii ''Key'')
     = ascii ''- Other: v''
   \<and> field (ascii ''## A'' @ [10] @ ascii ''- App Pulls:'' @ [10] @ ascii ''- Ray: red'')
       (ascii ''App Pulls'') = ascii ''- Ray: red''
   \<and> field (ascii ''## X'' @ [10] @ ascii ''- Key:'') (ascii ''Key'') = []
   \<and> field (ascii ''## X'' @ [10] @ ascii ''- Key:   '') (ascii ''Key'') = []
   \<and> field (ascii ''## X'' @ [10] @ ascii ''- Key: a '' @ [10] @ ascii ''- Key: b'') (ascii ''Key'')
     = ascii ''a''"
  by (simp add: field_def re_search_def field_pat_def lit_def ascii_def is_space_def strip_def
      lstrip_def rstrip_def)

text \<open>
  C10. Field extraction can read past the line of the key: in every block whose first
  \<open>-\<close> starts a line \<open>- <key>:\<close> that holds only white space before its line break and
  that is followed by a line starting with a character that is no white space, \<open>field\<close>
  returns the trimmed text of that following line, which is not empty; the white space
  matched after the colon runs over the line break.
\<close>

theorem field_reads_next_line:
  "45 \<notin> set h \<and> list_all is_space w \<and> 10 \<notin> set w \<and> \<not> is_space c \<and> 10 \<notin> set x \<longrightarrow>
     field (h @ ascii ''- '' @ k @ [58] @ w @ [10] @ c # x) k = strip (c # x) \<and>
     field (h @ ascii ''- '' @ k @ [58] @ w @ [10] @ c # x @ 10 # y) k = strip (c # x) \<and>
     strip (c # x) \<noteq> []"
proof (intro impI)
  assume a: "45 \<notin> set h \<and> list_all is_space w \<and> 10 \<notin> set w \<and> \<not> is_space c \<and> 10 \<notin> set x"
  have sp: "list_all is_space (ascii '' '')" "list_all is_space (w @ [10])"
    using a by (simp_all add: ascii_def is_space_def)
  have d: "ascii ''- '' = 45 # ascii '' ''"
    by (simp add: ascii_def)
  have 1: "field (h @ 45 # ascii '' '' @ k @ 58 # (w @ [10]) @ c # x) k = strip (c # x)"
    using a field_at_first_dash [OF _ sp(1) value_after_same_line(1) [OF sp(2)]] by blast
  have 2: "field (h @ 45 # ascii '' '' @ k @ 58 # (w @ [10]) @ c # x @ 10 # y) k = strip (c # x)"
    using a field_at_first_dash [OF _ sp(1) value_after_same_line(2) [OF sp(2)]] by blast
  have 3: "strip (c # x) \<noteq> []"
    using a by (simp add: strip_nonspace rstrip_nonempty)
  from 1 2 3 show "field (h @ ascii ''- '' @ k @ [58] @ w @ [10] @ c # x) k = strip (c # x) \<and>
     field (h @ ascii ''- '' @ k @ [58] @ w @ [10] @ c # x @ 10 # y) k = strip (c # x) \<and>
     strip (c # x) \<noteq> []"
    by (simp add: d)
qed

theorem field_reads_next_line_witness:
  "field (ascii ''## X'' @ [10] @ ascii ''- Key:   '' @ [10] @ ascii ''- Other: v'') (ascii ''Key'')
     = ascii ''- Other: v''"
proof -
  have h: "45 \<notin> set (ascii ''## X'' @ [10])" "list_all is_space (ascii ''   '')"
    "10 \<notin> set (ascii ''   '')" "\<not> is_space 45" "10 \<notin> set (ascii '' Other: v'')"
    by (simp_all add: ascii_def is_space_def)
  have v: "strip (45 # ascii '' Other: v'') = ascii ''- Other: v''"
    by (simp add: ascii_def strip_def lstrip_def rstrip_def is_space_def)
  have e: "ascii ''## X'' @ [10] @ ascii ''- Key:   '' @ [10] @ ascii ''- Other: v''
      = (ascii ''## X'' @ [10]) @ ascii ''- '' @ ascii ''Key'' @ [58] @ ascii ''   '' @ [10] @
        45 # ascii '' Other: v''"
    by (simp add: ascii_def)
  show ?thesis
    unfolding e
    using field_reads_next_line [of "ascii ''## X'' @ [10]" "ascii ''   ''" 45 "ascii '' Other: v''"
        "ascii ''Key''"] h v
    by simp
qed

section \<open>The block splitter\<close>

lemma mtch_split_pat:
  "mtch split_pat b [] = None"
  "mtch split_pat b (c # t) = (if c = 10 \<and> looks heading t then Some ([[10], []], t) else None)"
  by (auto simp: split_pat_def heading_def)

lemma split_step:
  "split_from split_pat b (c # t) cur =
     (if c = 10 \<and> looks heading t then rev cur # split_from split_pat True t []
      else split_from split_pat (c = 10) t (c # cur))"
  by (simp add: mtch_split_pat)

lemma split_bol: "split_from split_pat b s cur = split_from split_pat True s cur"
  by (cases s) (simp_all add: split_step del: split_from.simps(2))

lemma split_from_nonempty: "split_from split_pat b s cur \<noteq> []"
  by (induction s arbitrary: b cur) (simp_all add: split_step del: split_from.simps(2))

lemma join_nl_Cons: "ps \<noteq> [] \<Longrightarrow> join_nl (p # ps) = p @ 10 # join_nl ps"
  by (cases ps) simp_all

lemma join_split_from: "join_nl (split_from split_pat b s cur) = rev cur @ s"
proof (induction s arbitrary: b cur)
  case Nil
  show ?case by simp
next
  case (Cons c t)
  show ?case
    by (simp add: split_step join_nl_Cons split_from_nonempty Cons.IH del: split_from.simps(2))
qed

lemma split_no_cut:
  assumes "\<And>u t. s = u @ 10 # t \<Longrightarrow> \<not> looks heading t"
  shows "split_from split_pat b s cur = [rev cur @ s]"
  using assms
proof (induction s arbitrary: b cur)
  case Nil
  show ?case by simp
next
  case (Cons c t)
  have n: "\<not> (c = 10 \<and> looks heading t)"
    using Cons.prems [of "[]" t] by auto
  have "split_from split_pat (c = 10) t (c # cur) = [rev (c # cur) @ t]"
  proof (rule Cons.IH)
    fix u t'
    assume "t = u @ 10 # t'"
    then show "\<not> looks heading t'"
      using Cons.prems [of "c # u" t'] by simp
  qed
  with n show ?case
    by (simp add: split_step del: split_from.simps(2))
qed

lemma split_first_cut:
  assumes "looks heading t"
    and "\<And>a1 a2. a = a1 @ 10 # a2 \<Longrightarrow> \<not> looks heading (a2 @ 10 # t)"
  shows "split_from split_pat b (a @ 10 # t) cur = (rev cur @ a) # split_from split_pat True t []"
  using assms(2)
proof (induction a arbitrary: b cur)
  case Nil
  show ?case
    using assms(1) by (simp add: split_step del: split_from.simps(2))
next
  case (Cons c a)
  have n: "\<not> (c = 10 \<and> looks heading (a @ 10 # t))"
    using Cons.prems [of "[]" a] by auto
  have "split_from split_pat (c = 10) (a @ 10 # t) (c # cur)
        = (rev (c # cur) @ a) # split_from split_pat True t []"
  proof (rule Cons.IH)
    fix a1 a2
    assume "a = a1 @ 10 # a2"
    then show "\<not> looks heading (a2 @ 10 # t)"
      using Cons.prems [of "c # a1" a2] by simp
  qed
  with n show ?case
    by (simp add: split_step del: split_from.simps(2))
qed

lemma hd_split_from: "prefix (rev cur) (hd (split_from split_pat b s cur))"
proof (induction s arbitrary: b cur)
  case Nil
  show ?case by simp
next
  case (Cons c t)
  have "prefix (rev cur) (rev (c # cur))"
    by simp
  then have "prefix (rev cur) (hd (split_from split_pat (c = 10) t (c # cur)))"
    using Cons.IH [of "c # cur" "c = 10"] prefix_order.trans by blast
  then show ?case
    by (simp add: split_step del: split_from.simps(2))
qed

lemma hd_split_heading:
  assumes "looks heading t"
  shows "prefix [35, 35] (hd (split_from split_pat b t []))"
proof -
  from assms obtain x t' where t: "t = 35 # 35 # x # t'"
    by (cases t; cases "tl t"; cases "tl (tl t)") (auto simp: heading_def)
  have "split_from split_pat b t [] = split_from split_pat False (35 # x # t') [35]"
    unfolding t by (simp add: split_step heading_def del: split_from.simps(2))
  also have "\<dots> = split_from split_pat False (x # t') [35, 35]"
    by (simp add: split_step heading_def del: split_from.simps(2))
  finally show ?thesis
    using hd_split_from [of "[35, 35]" False "x # t'"] by simp
qed

lemma pieces_start:
  "\<forall>p \<in> set (tl (split_from split_pat b s cur)). prefix [35, 35] p"
proof (induction s arbitrary: b cur)
  case Nil
  show ?case by simp
next
  case (Cons c t)
  show ?case
  proof (cases "c = 10 \<and> looks heading t")
    case False
    then have "split_from split_pat b (c # t) cur = split_from split_pat (c = 10) t (c # cur)"
      by (auto simp: split_step simp del: split_from.simps(2))
    then show ?thesis
      using Cons.IH [of "c = 10" "c # cur"] by simp
  next
    case True
    obtain p ps where p: "split_from split_pat True t [] = p # ps"
      using split_from_nonempty [of True t "[]"] by (cases "split_from split_pat True t []") auto
    have "prefix [35, 35] p"
      using hd_split_heading [of t True] True p by simp
    moreover have "\<forall>q \<in> set ps. prefix [35, 35] q"
      using Cons.IH [of True "[]"] p by simp
    ultimately show ?thesis
      using True p by (simp add: split_step del: split_from.simps(2))
  qed
qed

lemma looks_heading: "looks heading t \<longleftrightarrow> (\<exists>x r. t = 35 # 35 # x # r \<and> is_space x)"
  by (cases t; cases "tl t"; cases "tl (tl t)") (auto simp: heading_def)

text \<open>
  C9, as the code has it. The splitter cuts the text at exactly the line breaks that are
  followed by \<open>##\<close> and one white-space character, which may be a space but also a tab
  or a line break: a text without such a line break is one segment, and a text is cut at
  its first such line break and split on after it. The line break of a cut is dropped
  and nothing else, so that the segments joined by line breaks give the text back, in
  source order, and every segment after the first starts with \<open>##\<close>. The blocks are the
  segments that start with \<open>##\<close> and a space, in source order; the other segments, a
  preamble and any segment whose \<open>##\<close> is followed by other white space, are discarded
  with all their text.
\<close>

theorem blocks_split:
  "join_nl (re_split split_pat md) = md
   \<and> ((\<forall>u t. md = u @ 10 # t \<longrightarrow> \<not> looks heading t) \<longrightarrow> re_split split_pat md = [md])
   \<and> (looks heading t \<and> (\<forall>a1 a2. a = a1 @ 10 # a2 \<longrightarrow> \<not> looks heading (a2 @ 10 # t))
        \<longrightarrow> re_split split_pat (a @ 10 # t) = a # re_split split_pat t)
   \<and> (\<forall>p \<in> set (tl (re_split split_pat md)). prefix [35, 35] p)
   \<and> blocks md = filter (prefix (ascii ''## '')) (re_split split_pat md)
   \<and> (looks heading t \<longleftrightarrow> (\<exists>x r. t = 35 # 35 # x # r \<and> is_space x))"
proof -
  have 1: "join_nl (re_split split_pat md) = md"
    by (simp add: re_split_def join_split_from)
  have 2: "(\<forall>u t. md = u @ 10 # t \<longrightarrow> \<not> looks heading t) \<longrightarrow> re_split split_pat md = [md]"
    using split_no_cut [of md True "[]"] by (auto simp: re_split_def)
  have 3: "looks heading t \<and> (\<forall>a1 a2. a = a1 @ 10 # a2 \<longrightarrow> \<not> looks heading (a2 @ 10 # t))
        \<longrightarrow> re_split split_pat (a @ 10 # t) = a # re_split split_pat t"
    using split_first_cut [of t a True "[]"] by (auto simp: re_split_def)
  have 4: "\<forall>p \<in> set (tl (re_split split_pat md)). prefix [35, 35] p"
    using pieces_start [of True md "[]"] by (simp add: re_split_def)
  from 1 2 3 4 looks_heading [of t] show ?thesis
    by (simp add: blocks_def)
qed

theorem blocks_split_witness:
  "re_split split_pat (ascii ''pre'' @ 10 # ascii ''## A'') = [ascii ''pre'', ascii ''## A'']
   \<and> blocks (ascii ''pre'' @ 10 # ascii ''## A'') = [ascii ''## A'']
   \<and> join_nl [ascii ''pre'', ascii ''## A''] = ascii ''pre'' @ 10 # ascii ''## A''"
proof -
  have n: "10 \<notin> set (ascii ''pre'')" "10 \<notin> set (ascii ''## A'')"
    by (simp_all add: ascii_def)
  have l: "looks heading (ascii ''## A'')"
    by (simp add: heading_def ascii_def is_space_def)
  have a: "\<forall>a1 a2. ascii ''pre'' = a1 @ 10 # a2 \<longrightarrow> \<not> looks heading (a2 @ 10 # ascii ''## A'')"
  proof (intro allI impI)
    fix a1 a2 :: ustr
    assume "ascii ''pre'' = a1 @ 10 # a2"
    then have "set (ascii ''pre'') = set (a1 @ 10 # a2)"
      by simp
    with n(1) show "\<not> looks heading (a2 @ 10 # ascii ''## A'')"
      by simp
  qed
  have b: "\<forall>u t. ascii ''## A'' = u @ 10 # t \<longrightarrow> \<not> looks heading t"
  proof (intro allI impI)
    fix u t :: ustr
    assume "ascii ''## A'' = u @ 10 # t"
    then have "set (ascii ''## A'') = set (u @ 10 # t)"
      by simp
    with n(2) show "\<not> looks heading t"
      by simp
  qed
  have 1: "re_split split_pat (ascii ''pre'' @ 10 # ascii ''## A'')
           = ascii ''pre'' # re_split split_pat (ascii ''## A'')"
    using blocks_split [where t = "ascii ''## A''" and a = "ascii ''pre''"] l a by blast
  have 2: "re_split split_pat (ascii ''## A'') = [ascii ''## A'']"
    using blocks_split [where md = "ascii ''## A''"] b by blast
  have 3: "blocks (ascii ''pre'' @ 10 # ascii ''## A'')
           = filter (prefix (ascii ''## '')) (re_split split_pat (ascii ''pre'' @ 10 # ascii ''## A''))"
    using blocks_split [where md = "ascii ''pre'' @ 10 # ascii ''## A''"] by blast
  have 4: "join_nl (re_split split_pat (ascii ''pre'' @ 10 # ascii ''## A''))
           = ascii ''pre'' @ 10 # ascii ''## A''"
    using blocks_split [where md = "ascii ''pre'' @ 10 # ascii ''## A''"] by blast
  have 5: "filter (prefix (ascii ''## '')) [ascii ''pre'', ascii ''## A''] = [ascii ''## A'']"
    by (simp add: ascii_def)
  from 1 2 3 4 5 show ?thesis
    by simp
qed

text \<open>
  C9 as the claim words it fails at a line that begins with \<open>##\<close> and a tab: the line
  does not begin with \<open>##\<close> and a space, the text is cut there all the same, and the
  segment is discarded, so that the line and the text after it are in no block.
\<close>

theorem blocks_counterexample:
  "re_split split_pat (ascii ''## A'' @ [10] @ ascii ''foo'' @ [10] @ ascii ''##'' @ [9] @
                       ascii ''B'' @ [10] @ ascii ''bar'')
     = [ascii ''## A'' @ [10] @ ascii ''foo'', ascii ''##'' @ [9] @ ascii ''B'' @ [10] @ ascii ''bar'']
   \<and> blocks (ascii ''## A'' @ [10] @ ascii ''foo'' @ [10] @ ascii ''##'' @ [9] @ ascii ''B'' @
              [10] @ ascii ''bar'')
     = [ascii ''## A'' @ [10] @ ascii ''foo'']
   \<and> \<not> prefix (ascii ''## '') (ascii ''##'' @ [9] @ ascii ''B'')"
  by (simp add: blocks_def re_split_def split_pat_def ascii_def is_space_def)

section \<open>The heading pattern\<close>

lemma mtch_Many_exists:
  assumes "Bol \<notin> set r" "list_all p w" "n \<le> length w" "mtch r True u \<noteq> None"
  shows "mtch (Many p n # r) b (w @ u) \<noteq> None"
  using assms(2,3)
proof (induction w arbitrary: n b)
  case Nil
  have "mtch r b u \<noteq> None"
    using mtch_bol [OF assms(1), of b u] assms(4) by simp
  with Nil show ?case
    by (cases u) (auto simp: step_simps)
next
  case (Cons c w)
  have "mtch (Many p (n - 1) # r) (c = 10) (w @ u) \<noteq> None"
    using Cons by simp
  then obtain gs rest where m: "mtch (Many p (n - 1) # r) (c = 10) (w @ u) = Some (gs, rest)"
    by auto
  then have "gs \<noteq> []"
    using mtch_length [OF m] by auto
  with m Cons.prems show ?case
    by (cases gs) (auto simp: step_simps)
qed

lemma mtch_Few_exists:
  assumes "Bol \<notin> set r" "list_all p w" "n \<le> length w" "mtch r True u \<noteq> None"
  shows "mtch (Few p n # r) b (w @ u) \<noteq> None"
  using assms(2,3)
proof (induction w arbitrary: n b)
  case Nil
  have "mtch r b u \<noteq> None"
    using mtch_bol [OF assms(1), of b u] assms(4) by simp
  with Nil show ?case
    by (cases u) (auto simp: step_simps)
next
  case (Cons c w)
  have "mtch (Few p (n - 1) # r) (c = 10) (w @ u) \<noteq> None"
    using Cons by simp
  then obtain gs rest where m: "mtch (Few p (n - 1) # r) (c = 10) (w @ u) = Some (gs, rest)"
    by auto
  then have "gs \<noteq> []"
    using mtch_length [OF m] by auto
  with m Cons.prems show ?case
    by (cases gs) (auto simp: step_simps)
qed

lemma list_all_takeWhile: "list_all P (takeWhile P xs)"
  by (induction xs) auto

lemma at_eol_dropWhile: "at_eol (dropWhile (\<lambda>c. c \<noteq> 10) u)"
  by (induction u) auto

lemma name_tail_exists:
  assumes "\<not> is_space c"
  shows "mtch [Few (\<lambda>c. c \<noteq> 10) 1, Many is_space 0, Eol] True (c # y) \<noteq> None"
proof -
  let ?u = "c # y"
  let ?z = "dropWhile (\<lambda>c. c \<noteq> 10) ?u"
  have e: "mtch [Eol] True ?z \<noteq> None"
    using at_eol_dropWhile [of ?u] by (simp del: dropWhile.simps)
  have "mtch (Many is_space 0 # [Eol]) True ([] @ ?z) \<noteq> None"
    by (rule mtch_Many_exists) (use e in simp_all)
  then have m: "mtch [Many is_space 0, Eol] True ?z \<noteq> None"
    by simp
  have "mtch (Few (\<lambda>c. c \<noteq> 10) 1 # [Many is_space 0, Eol]) True
          (takeWhile (\<lambda>c. c \<noteq> 10) ?u @ ?z) \<noteq> None"
  proof (rule mtch_Few_exists)
    show "Bol \<notin> set [Many is_space 0, Eol]" by simp
    show "list_all (\<lambda>c. c \<noteq> 10) (takeWhile (\<lambda>c. c \<noteq> 10) ?u)"
      by (rule list_all_takeWhile)
    show "1 \<le> length (takeWhile (\<lambda>c. c \<noteq> 10) ?u)"
      using assms not_space_not_nl [of c] by simp
    show "mtch [Many is_space 0, Eol] True ?z \<noteq> None"
      by (rule m)
  qed
  then show ?thesis
    by (simp del: takeWhile.simps dropWhile.simps mtch.simps)
qed

lemma name_match_exists:
  assumes "\<exists>c \<in> set x. \<not> is_space c"
  shows "re_search name_pat (ascii ''## '' @ x) \<noteq> None"
proof -
  let ?r = "[Few (\<lambda>c. c \<noteq> 10) 1, Many is_space 0, Eol]"
  have ne: "dropWhile is_space x \<noteq> []"
    using assms by (auto simp: dropWhile_eq_Nil_conv)
  then obtain c y where u1: "dropWhile is_space x = c # y"
    by (cases "dropWhile is_space x") auto
  have "\<not> is_space c"
    using hd_dropWhile [OF ne] u1 by simp
  note u = u1 this
  have x: "x = takeWhile is_space x @ c # y"
    using u(1) takeWhile_dropWhile_id [of is_space x] by simp
  have "mtch (Many is_space 1 # ?r) False ((32 # takeWhile is_space x) @ c # y) \<noteq> None"
  proof (rule mtch_Many_exists)
    show "Bol \<notin> set ?r" by simp
    show "list_all is_space (32 # takeWhile is_space x)"
      using list_all_takeWhile [of is_space x] by (simp add: is_space_def)
    show "1 \<le> length (32 # takeWhile is_space x)" by simp
    show "mtch ?r True (c # y) \<noteq> None"
      by (rule name_tail_exists [OF u(2)])
  qed
  then have "mtch (Many is_space 1 # ?r) False (32 # x) \<noteq> None"
    using x by simp
  then have "mtch name_pat True (ascii ''## '' @ x) \<noteq> None"
    by (simp add: name_pat_def ascii_def step_simps del: mtch.simps(5,7))
  then obtain m where "mtch name_pat True (ascii ''## '' @ x) = Some m"
    by auto
  from search_hit [OF this] show ?thesis
    by (simp add: re_search_def)
qed

lemma name_match_block:
  assumes "prefix (ascii ''## '') b" "field b k \<noteq> []"
  shows "re_search name_pat b \<noteq> None"
proof -
  from assms(1) obtain x where b: "b = ascii ''## '' @ x"
    by (auto simp: prefix_def)
  from field_found [OF assms(2)] obtain pre w t where "b = pre @ 45 # w @ k @ 58 # t"
    by auto
  then have "45 \<in> set b"
    by simp
  then have "45 \<in> set x"
    unfolding b by (simp add: ascii_def)
  moreover have "\<not> is_space 45"
    by (simp add: is_space_def)
  ultimately show ?thesis
    unfolding b by (intro name_match_exists) blast
qed

section \<open>The Solfeggio marker\<close>









lemma solf_pat_items:
  "solf_pat D = lit (ascii ''Solfeggio'') @
     (Many is_space 0 # One ((=) 61) # Many is_space 0 # [Many (num_char D) 1])"
proof -
  have "(\<lambda>c. is_digit D c \<or> c = 46) = num_char D"
    by (auto simp: num_char_def)
  then show ?thesis
    by (simp add: solf_pat_def)
qed

lemma Bol_notin_solf: "Bol \<notin> set (solf_pat D)"
  by (simp add: solf_pat_items Bol_notin_lit)

lemma solf_mtch_elim:
  assumes "mtch (solf_pat D) b s = Some (gs, rest)"
  shows "\<exists>w1 w2. s = ascii ''Solfeggio'' @ w1 @ 61 # w2 @ last gs @ rest \<and>
           list_all is_space w1 \<and> list_all is_space w2 \<and> last gs \<noteq> [] \<and>
           list_all (num_char D) (last gs) \<and> (rest = [] \<or> \<not> num_char D (hd rest))"
proof -
  let ?r3 = "[Many (num_char D) 1]"
  let ?r2 = "Many is_space 0 # ?r3"
  let ?r1 = "One ((=) 61) # ?r2"
  let ?r0 = "Many is_space 0 # ?r1"
  have nb: "Bol \<notin> set ?r0" "Bol \<notin> set ?r1" "Bol \<notin> set ?r2" "Bol \<notin> set ?r3"
    by simp_all
  from assms have "mtch (lit (ascii ''Solfeggio'') @ ?r0) b s = Some (gs, rest)"
    by (simp only: solf_pat_items)
  from this [unfolded mtch_lit_Some [OF nb(1)]] obtain t1 gs1 where 0: "s = ascii ''Solfeggio'' @ t1"
    "mtch ?r0 True t1 = Some (gs1, rest)" "gs = map (\<lambda>c. [c]) (ascii ''Solfeggio'') @ gs1"
    by blast
  from mtch_Many_Some_elim [OF nb(2) 0(2)] obtain w1 u1 gs2 where 1: "t1 = w1 @ u1"
    "list_all is_space w1" "mtch ?r1 True u1 = Some (gs2, rest)" "gs1 = w1 # gs2"
    by blast
  from 1(3) [unfolded mtch_One_Some [OF nb(3)]] obtain t2 gs3 where 2: "u1 = 61 # t2"
    "mtch ?r2 True t2 = Some (gs3, rest)" "gs2 = [61] # gs3"
    by blast
  from mtch_Many_Some_elim [OF nb(4) 2(2)] obtain w2 u2 gs4 where 3: "t2 = w2 @ u2"
    "list_all is_space w2" "mtch ?r3 True u2 = Some (gs4, rest)" "gs3 = w2 # gs4"
    by blast
  from 3(3) have 4: "1 \<le> length (takeWhile (num_char D) u2)"
    "gs4 = [takeWhile (num_char D) u2]" "rest = dropWhile (num_char D) u2"
    by (auto simp: mtch_Many_last split: if_splits)
  have l: "last gs = takeWhile (num_char D) u2"
    using 0(3) 1(4) 2(3) 3(4) 4(2) by simp
  have u2: "u2 = last gs @ rest"
    using l 4(3) by simp
  have "rest = [] \<or> \<not> num_char D (hd rest)"
    using hd_dropWhile [of "num_char D" u2] 4(3) by auto
  moreover have "list_all (num_char D) (last gs)"
    using l list_all_takeWhile [of "num_char D" u2] by simp
  moreover have "last gs \<noteq> []"
    using l 4(1) by auto
  moreover have "s = ascii ''Solfeggio'' @ w1 @ 61 # w2 @ last gs @ rest"
    using 0(1) 1(1) 2(1) 3(1) u2 by simp
  ultimately show ?thesis
    using 1(2) 3(2) by blast
qed



lemma solf_search_elim:
  assumes "re_search (solf_pat D) tech = Some (gs, rest)"
  shows "\<exists>pre. marker D pre (last gs) tech"
proof -
  from assms have "search (solf_pat D) True tech = Some (gs, rest)"
    by (simp add: re_search_def)
  from search_Some_elim [OF Bol_notin_solf this] obtain p1 p2 where
    p: "tech = p1 @ p2" "mtch (solf_pat D) True p2 = Some (gs, rest)"
    by blast
  from solf_mtch_elim [OF p(2)] show ?thesis
    unfolding marker_def p(1) by auto
qed


section \<open>Assembling the records\<close>

lemma not_digit_dot: "\<not> is_digit D 46"
  by (simp add: is_digit_def digit_val_def)

lemma num_chars_digits:
  "list_all (num_char D) xs \<Longrightarrow> 46 \<notin> set xs \<Longrightarrow> list_all (is_digit D) xs"
  by (induction xs) (auto simp: num_char_def)

lemma digits_no_dot: "list_all (is_digit D) xs \<Longrightarrow> 46 \<notin> set xs"
  using not_digit_dot [of D] by (auto simp: list_all_iff)

lemma digits_ex: "list_all (is_digit D) xs \<Longrightarrow> list_ex (is_digit D) xs \<longleftrightarrow> xs \<noteq> []"
  by (cases xs) auto

lemma float_str_ValueError: "float_str D R s = Inl e \<Longrightarrow> e = ValueError"
  by (auto simp: float_str_def Let_def split: list.splits if_splits)

lemma float_str_no_dot:
  assumes "list_all (num_char D) num" "46 \<notin> set num"
  shows "float_str D R num = (if num = [] then Inl ValueError else Inr (R (of_nat (dec_val D num))))"
    and "not_a_number D num \<longleftrightarrow> num = []"
proof -
  have d: "list_all (is_digit D) num"
    using assms by (rule num_chars_digits)
  show "float_str D R num = (if num = [] then Inl ValueError else Inr (R (of_nat (dec_val D num))))"
    using assms(2) d by (simp add: float_str_def takeWhile_absent dropWhile_absent)
  show "not_a_number D num \<longleftrightarrow> num = []"
    using assms(2) digits_ex [OF d] by (simp add: not_a_number_def)
qed

lemma float_str_dot:
  assumes "list_all (num_char D) (ip @ 46 # fp)" "46 \<notin> set ip"
  shows "float_str D R (ip @ 46 # fp) =
           (if 46 \<notin> set fp \<and> ip @ fp \<noteq> []
            then Inr (R (of_nat (dec_val D (ip @ fp)) / 10 ^ length fp)) else Inl ValueError)"
    and "not_a_number D (ip @ 46 # fp) \<longleftrightarrow> \<not> (46 \<notin> set fp \<and> ip @ fp \<noteq> [])"
proof -
  have i: "list_all (is_digit D) ip"
    using assms by (intro num_chars_digits) simp_all
  have f: "list_all (is_digit D) fp \<longleftrightarrow> 46 \<notin> set fp"
    using assms(1) num_chars_digits [of D fp] digits_no_dot [of D fp] by auto
  show "float_str D R (ip @ 46 # fp) =
           (if 46 \<notin> set fp \<and> ip @ fp \<noteq> []
            then Inr (R (of_nat (dec_val D (ip @ fp)) / 10 ^ length fp)) else Inl ValueError)"
    using assms(2) i f by (simp add: float_str_def takeWhile_upto dropWhile_upto)
  have c: "count_list (ip @ 46 # fp) 46 = Suc (count_list fp 46)"
    using assms(2) by (simp add: count_list_0_iff)
  have e: "list_ex (is_digit D) (ip @ 46 # fp) \<longleftrightarrow> list_ex (is_digit D) (ip @ fp)"
    using not_digit_dot [of D] by (simp add: list_ex_iff)
  show "not_a_number D (ip @ 46 # fp) \<longleftrightarrow> \<not> (46 \<notin> set fp \<and> ip @ fp \<noteq> [])"
  proof (cases "46 \<in> set fp")
    case True
    then have "count_list fp 46 \<noteq> 0"
      by (simp add: count_list_0_iff)
    with True c show ?thesis
      by (simp add: not_a_number_def)
  next
    case False
    then have "count_list fp 46 = 0" "list_all (is_digit D) (ip @ fp)"
      using i f by (simp_all add: count_list_0_iff)
    with False c e digits_ex [of D "ip @ fp"] show ?thesis
      by (simp add: not_a_number_def)
  qed
qed

lemma float_str_error:
  assumes "list_all (num_char D) num"
  shows "float_str D R num = Inl ValueError \<longleftrightarrow> not_a_number D num"
proof (cases "46 \<in> set num")
  case False
  then show ?thesis
    using float_str_no_dot(1) [OF assms False, of R] float_str_no_dot(2) [OF assms False]
    by simp
next
  case True
  then obtain ip fp where n: "num = ip @ 46 # fp" "46 \<notin> set ip"
    by (auto dest: split_list_first)
  have a: "list_all (num_char D) (ip @ 46 # fp)"
    using assms n(1) by simp
  show ?thesis
    unfolding n(1) using float_str_dot(1) [OF a n(2), of R] float_str_dot(2) [OF a n(2)]
    by simp
qed

lemma freq_of_Inl:
  "freq_of U D R tech ray = Inl e \<longleftrightarrow>
     (\<exists>gs rest. re_search (solf_pat D) tech = Some (gs, rest) \<and> float_str D R (last gs) = Inl e)"
  by (auto simp: freq_of_def split: option.splits)

lemma freq_of_error_marker:
  assumes "freq_of U D R tech ray = Inl e"
  shows "e = ValueError \<and> (\<exists>pre num. marker D pre num tech \<and> not_a_number D num)"
proof -
  from assms obtain gs rest where s: "re_search (solf_pat D) tech = Some (gs, rest)"
    and f: "float_str D R (last gs) = Inl e"
    by (auto simp: freq_of_Inl)
  from solf_search_elim [OF s] obtain pre where m: "marker D pre (last gs) tech"
    by blast
  then have "list_all (num_char D) (last gs)"
    by (auto simp: marker_def)
  with f float_str_ValueError [OF f] float_str_error [of D "last gs" R] m show ?thesis
    by blast
qed



lemma card_of_skip: "field b (ascii ''App Pulls'') = [] \<Longrightarrow> card_of U W D R b = Inr None"
  by (simp add: card_of_def Let_def split: option.splits)

lemma card_of_Inl:
  assumes "card_of U W D R b = Inl e"
  shows "field b (ascii ''App Pulls'') \<noteq> []"
    and "freq_of U D R (field b (ascii ''Technical'')) (field b (ascii ''Ray'')) = Inl e"
  using assms
  by (auto simp: card_of_def Let_def split: option.splits sum.splits if_splits)

lemma card_of_gate:
  assumes "prefix (ascii ''## '') b" "field b (ascii ''App Pulls'') \<noteq> []"
  shows "card_of U W D R b \<noteq> Inr None"
    and "freq_of U D R (field b (ascii ''Technical'')) (field b (ascii ''Ray'')) = Inl e \<Longrightarrow>
         card_of U W D R b = Inl e"
    and "freq_of U D R (field b (ascii ''Technical'')) (field b (ascii ''Ray'')) = Inr f \<Longrightarrow>
         \<exists>c. card_of U W D R b = Inr (Some c) \<and> c_freq c = f"
proof -
  obtain gs rest where n: "re_search name_pat b = Some (gs, rest)"
    using name_match_block [OF assms] by (cases "re_search name_pat b") auto
  show "card_of U W D R b \<noteq> Inr None"
    using n assms(2) by (simp add: card_of_def Let_def split: sum.splits)
  show "freq_of U D R (field b (ascii ''Technical'')) (field b (ascii ''Ray'')) = Inl e \<Longrightarrow>
         card_of U W D R b = Inl e"
    using n assms(2) by (simp add: card_of_def Let_def)
  show "freq_of U D R (field b (ascii ''Technical'')) (field b (ascii ''Ray'')) = Inr f \<Longrightarrow>
         \<exists>c. card_of U W D R b = Inr (Some c) \<and> c_freq c = f"
    using n assms(2) by (simp add: card_of_def Let_def)
qed

lemma card_of_ValueError: "card_of U W D R b = Inl e \<Longrightarrow> e = ValueError"
  using card_of_Inl(2) freq_of_error_marker by blast

lemma blocks_prefix: "b \<in> set (blocks md) \<Longrightarrow> prefix (ascii ''## '') b"
  by (simp add: blocks_def)

lemma has_app_pulls_field:
  assumes "has_app_pulls b"
  shows "field b (ascii ''App Pulls'') \<noteq> []"
proof -
  from assms obtain pre w w2 c x where
    h: "b = pre @ 45 # w @ ascii ''App Pulls'' @ 58 # w2 @ c # x" "list_all is_space w"
      "\<not> is_space c"
    by (auto simp: has_app_pulls_def)
  have "45 \<notin> set (ascii ''App Pulls'')"
    by (simp add: ascii_def)
  moreover have "\<exists>d \<in> set (w2 @ c # x). \<not> is_space d"
    using h(3) by auto
  ultimately show ?thesis
    using field_value_on_line [OF h(1,2)] by blast
qed

lemma lacks_app_pulls_field:
  assumes "lacks_app_pulls b"
  shows "field b (ascii ''App Pulls'') = []"
  using assms unfolding lacks_app_pulls_def by (intro field_blank) blast

lemma assemble_exact:
  assumes "\<And>b. b \<in> set bs \<Longrightarrow> card_of U W D R b \<noteq> Inl ValueError"
    and "\<And>b. b \<in> set bs \<Longrightarrow> prefix (ascii ''## '') b"
    and "\<And>b. b \<in> set bs \<Longrightarrow> has_app_pulls b \<or> lacks_app_pulls b"
  shows "\<exists>cards. assemble U W D R acc bs = Inr (acc @ cards) \<and>
           map (\<lambda>c. Inr (Some c)) cards = map (card_of U W D R) (filter has_app_pulls bs)"
  using assms
proof (induction bs arbitrary: acc)
  case Nil
  show ?case by simp
next
  case (Cons b bs)
  note ih = Cons.IH [OF Cons.prems(1) Cons.prems(2) Cons.prems(3), simplified]
  show ?case
  proof (cases "has_app_pulls b")
    case False
    then have "lacks_app_pulls b"
      using Cons.prems(3) [of b] by simp
    then have n: "card_of U W D R b = Inr None"
      using lacks_app_pulls_field card_of_skip by blast
    from ih [of acc] obtain cards where "assemble U W D R acc bs = Inr (acc @ cards)"
      "map (\<lambda>c. Inr (Some c)) cards = map (card_of U W D R) (filter has_app_pulls bs)"
      by blast
    with False n show ?thesis
      by simp
  next
    case True
    have "card_of U W D R b \<noteq> Inl ValueError" "card_of U W D R b \<noteq> Inr None"
      using Cons.prems(1) [of b] card_of_gate(1) [OF Cons.prems(2) has_app_pulls_field [OF True]]
      by simp_all
    then obtain c where c: "card_of U W D R b = Inr (Some c)"
      using card_of_ValueError [of U W D R b]
      by (cases "card_of U W D R b"; cases "projr (card_of U W D R b)") auto
    from ih [of "acc @ [c]"] obtain cards where
      "assemble U W D R (acc @ [c]) bs = Inr ((acc @ [c]) @ cards)"
      "map (\<lambda>c. Inr (Some c)) cards = map (card_of U W D R) (filter has_app_pulls bs)"
      by blast
    with c True show ?thesis
      by (intro exI [of _ "c # cards"]) simp
  qed
qed



section \<open>Frequency, errors and the gate\<close>









text \<open>
  C1, for the blocks whose \<open>App Pulls\<close> is read from its own line. A block in which
  nothing but white space follows every \<open>- App Pulls:\<close>, and so a block without one,
  produces no record and raises no error, whatever its other fields hold. A block that
  holds \<open>- App Pulls:\<close> with a non-empty value on that line is never skipped: it
  contributes one record, unless its \<open>Technical\<close> field makes \<open>float\<close> raise, and then it
  contributes none and raises \<open>ValueError\<close>. No block is of both kinds. For every document
  in which no block raises and every block is of one of the two kinds, the run succeeds
  and the records of the output are, in block order, exactly those of the blocks that
  hold \<open>- App Pulls:\<close> with a non-empty value on that line. Nothing is said here of a
  block where \<open>- App Pulls:\<close> has no value on its line and other text follows.
\<close>

theorem app_pulls_gate:
  "(lacks_app_pulls b \<longrightarrow> card_of U W D R b = Inr None)
   \<and> (prefix (ascii ''## '') b \<and> has_app_pulls b \<longrightarrow>
       card_of U W D R b \<noteq> Inr None \<and>
       (card_of U W D R b = Inl ValueError \<longleftrightarrow>
          freq_of U D R (field b (ascii ''Technical'')) (field b (ascii ''Ray'')) = Inl ValueError) \<and>
       ((\<exists>c. card_of U W D R b = Inr (Some c)) \<longleftrightarrow>
          freq_of U D R (field b (ascii ''Technical'')) (field b (ascii ''Ray'')) \<noteq> Inl ValueError))
   \<and> \<not> (has_app_pulls b \<and> lacks_app_pulls b)
   \<and> (b \<in> set (blocks md) \<longrightarrow> prefix (ascii ''## '') b)
   \<and> ((\<forall>b \<in> set (blocks md). card_of U W D R b \<noteq> Inl ValueError) \<and>
       (\<forall>b \<in> set (blocks md). has_app_pulls b \<or> lacks_app_pulls b) \<longrightarrow>
       (\<exists>cards. compile U W D R (Inr md) True True = Inr cards \<and>
          map (\<lambda>c. Inr (Some c)) cards
          = map (card_of U W D R) (filter has_app_pulls (blocks md))))"
proof -
  let ?f = "freq_of U D R (field b (ascii ''Technical'')) (field b (ascii ''Ray''))"
  have 1: "lacks_app_pulls b \<longrightarrow> card_of U W D R b = Inr None"
    using lacks_app_pulls_field card_of_skip by blast
  have 2: "card_of U W D R b \<noteq> Inr None \<and>
       (card_of U W D R b = Inl ValueError \<longleftrightarrow> ?f = Inl ValueError) \<and>
       ((\<exists>c. card_of U W D R b = Inr (Some c)) \<longleftrightarrow> ?f \<noteq> Inl ValueError)"
    if p: "prefix (ascii ''## '') b" and a: "has_app_pulls b"
  proof (cases ?f)
    case (Inl e)
    then have "e = ValueError"
      using freq_of_error_marker by blast
    with Inl card_of_gate(2) [OF p has_app_pulls_field [OF a], of U D R ValueError W]
    show ?thesis
      by auto
  next
    case (Inr f)
    with card_of_gate(3) [OF p has_app_pulls_field [OF a], of U D R f W] show ?thesis
      by auto
  qed
  have 3: "\<not> (has_app_pulls b \<and> lacks_app_pulls b)"
    using has_app_pulls_field lacks_app_pulls_field by blast
  have 4: "b \<in> set (blocks md) \<longrightarrow> prefix (ascii ''## '') b"
    using blocks_prefix by blast
  have 5: "\<exists>cards. compile U W D R (Inr md) True True = Inr cards \<and>
          map (\<lambda>c. Inr (Some c)) cards
          = map (card_of U W D R) (filter has_app_pulls (blocks md))"
    if h: "\<forall>b \<in> set (blocks md). card_of U W D R b \<noteq> Inl ValueError"
      "\<forall>b \<in> set (blocks md). has_app_pulls b \<or> lacks_app_pulls b"
  proof -
    from assemble_exact [of "blocks md" U W D R "[]"] h blocks_prefix [of _ md]
    obtain cards where "assemble U W D R [] (blocks md) = Inr ([] @ cards)"
      "map (\<lambda>c. Inr (Some c)) cards
       = map (card_of U W D R) (filter has_app_pulls (blocks md))"
      by blast
    then show ?thesis
      by (simp add: compile_def)
  qed
  from 1 2 3 4 5 show ?thesis
    by blast
qed

lemmas eval_field =
  field_def re_search_def field_pat_def lit_def ascii_def is_space_def strip_def lstrip_def
  rstrip_def

lemmas eval_freq =
  freq_of_def re_search_def solf_pat_def lit_def ascii_def is_space_def is_digit_def
  digit_val_def float_str_def dec_val_def

lemmas eval_blocks = blocks_def re_split_def split_pat_def ascii_def is_space_def



theorem app_pulls_gate_witness:
  "(\<exists>c. compile (\<lambda>s i. [s ! i]) (\<lambda>c. False) (\<lambda>c. None) (\<lambda>r. r)
       (Inr (ascii ''## The Fool'' @ [10] @ ascii ''- App Pulls: yes'' @ [10, 10] @
             ascii ''## Skipped Card'' @ [10] @ ascii ''- Ray: Crimson'')) True True
       = (Inr [c] :: error + rat card list)
      \<and> c_appPulls c = ascii ''yes'')
   \<and> card_of (\<lambda>s i. [s ! i]) (\<lambda>c. False) (\<lambda>c. None) (\<lambda>r. r)
       (ascii ''## Skipped Card'' @ [10] @ ascii ''- Ray: Crimson'')
     = (Inr None :: error + rat card option)"
proof -
  let ?U = "\<lambda>(s::ustr) (i::nat). [s ! i]" and ?W = "\<lambda>c::cp. False"
    and ?D = "\<lambda>c::cp. (None::nat option)" and ?R = "\<lambda>r::rat. r"
  let ?md = "ascii ''## The Fool'' @ [10] @ ascii ''- App Pulls: yes'' @ [10, 10] @
             ascii ''## Skipped Card'' @ [10] @ ascii ''- Ray: Crimson''"
  let ?b1 = "ascii ''## The Fool'' @ [10] @ ascii ''- App Pulls: yes'' @ [10]"
  let ?b2 = "ascii ''## Skipped Card'' @ [10] @ ascii ''- Ray: Crimson''"
  have bl: "blocks ?md = [?b1, ?b2]"
    by (simp add: eval_blocks)
  have ev: "field ?b1 (ascii ''App Pulls'') = ascii ''yes''"
    "field ?b1 (ascii ''Technical'') = []"
    by (simp_all add: eval_field)
  have fr: "freq_of ?U ?D ?R [] ray \<noteq> Inl ValueError" for ray
    by (simp add: eval_freq)
  have e1: "?b1 = (ascii ''## The Fool'' @ [10]) @ 45 # ascii '' '' @ ascii ''App Pulls'' @ 58 #
              ascii '' '' @ 121 # (ascii ''es'' @ [10])"
    by (simp add: ascii_def)
  have sp: "list_all is_space (ascii '' '')" "10 \<notin> set (ascii '' '')" "\<not> is_space 121"
    by (simp_all add: ascii_def is_space_def)
  have h1: "has_app_pulls ?b1"
    unfolding has_app_pulls_def using e1 sp by blast
  have "65 \<notin> set ?b2"
    by (simp add: ascii_def)
  moreover have "65 \<in> set ?b2"
    if "?b2 = pre @ 45 # w @ ascii ''App Pulls'' @ 58 # t" for pre w t
  proof -
    have "65 \<in> set (pre @ 45 # w @ ascii ''App Pulls'' @ 58 # t)"
      by (simp add: ascii_def)
    with that show ?thesis
      by simp
  qed
  ultimately have l2: "lacks_app_pulls ?b2"
    unfolding lacks_app_pulls_def by blast
  have 1: "card_of ?U ?W ?D ?R ?b1 \<noteq> Inl ValueError"
    using card_of_Inl(2) [of ?U ?W ?D ?R ?b1 ValueError] ev(2) fr by auto
  have 2: "card_of ?U ?W ?D ?R ?b2 = Inr None"
    using app_pulls_gate [where U = ?U and W = ?W and D = ?D and R = ?R and b = ?b2] l2
    by blast
  have n2: "\<not> has_app_pulls ?b2"
    using app_pulls_gate [where U = ?U and W = ?W and D = ?D and R = ?R and b = ?b2] l2
    by blast
  have "\<forall>b \<in> set (blocks ?md). card_of ?U ?W ?D ?R b \<noteq> Inl ValueError"
    using 1 2 bl by simp
  moreover have "\<forall>b \<in> set (blocks ?md). has_app_pulls b \<or> lacks_app_pulls b"
    using h1 l2 bl by simp
  ultimately have "\<exists>cards. compile ?U ?W ?D ?R (Inr ?md) True True = Inr cards \<and>
      map (\<lambda>c. Inr (Some c)) cards
      = map (card_of ?U ?W ?D ?R) (filter has_app_pulls (blocks ?md))"
    using app_pulls_gate [where U = ?U and W = ?W and D = ?D and R = ?R and md = ?md]
    by blast
  then obtain cards where c: "compile ?U ?W ?D ?R (Inr ?md) True True = Inr cards"
    "map (\<lambda>c. Inr (Some c)) cards
     = map (card_of ?U ?W ?D ?R) (filter has_app_pulls (blocks ?md))"
    by blast
  have "filter has_app_pulls (blocks ?md) = [?b1]"
    using bl h1 n2 by simp
  with c(2) have "map (\<lambda>c. Inr (Some c)) cards = [card_of ?U ?W ?D ?R ?b1]"
    by simp
  then obtain r where r: "cards = [r]" "card_of ?U ?W ?D ?R ?b1 = Inr (Some r)"
    by (auto simp: map_eq_Cons_conv)
  have "c_appPulls r = ascii ''yes''"
    using card_of_fields(1) [OF r(2)] ev(1) by simp
  with c(1) r(1) 2 show ?thesis
    by blast
qed

text \<open>
  C1 as the claim words it fails on a block that has its \<open>App Pulls\<close> and a Solfeggio
  marker with two dots: the block is the only block of the document, the value on its
  \<open>App Pulls\<close> line is \<open>y\<close>, and it contributes no record, since assembling it raises and
  the run ends with \<open>ValueError\<close>.
\<close>

theorem app_pulls_gate_counterexample:
  "blocks (ascii ''## A'' @ [10] @ ascii ''- App Pulls: y'' @ [10] @
           ascii ''- Technical: Solfeggio = 5..8'')
     = [ascii ''## A'' @ [10] @ ascii ''- App Pulls: y'' @ [10] @
        ascii ''- Technical: Solfeggio = 5..8'']
   \<and> field (ascii ''## A'' @ [10] @ ascii ''- App Pulls: y'' @ [10] @
             ascii ''- Technical: Solfeggio = 5..8'') (ascii ''App Pulls'') = ascii ''y''
   \<and> has_app_pulls (ascii ''## A'' @ [10] @ ascii ''- App Pulls: y'' @ [10] @
                      ascii ''- Technical: Solfeggio = 5..8'')
   \<and> card_of (\<lambda>s i. [s ! i]) (\<lambda>c. False) (\<lambda>c. None) (\<lambda>r. r)
       (ascii ''## A'' @ [10] @ ascii ''- App Pulls: y'' @ [10] @
        ascii ''- Technical: Solfeggio = 5..8'') = (Inl ValueError :: error + rat card option)
   \<and> compile (\<lambda>s i. [s ! i]) (\<lambda>c. False) (\<lambda>c. None) (\<lambda>r. r)
       (Inr (ascii ''## A'' @ [10] @ ascii ''- App Pulls: y'' @ [10] @
             ascii ''- Technical: Solfeggio = 5..8'')) True True
     = (Inl ValueError :: error + rat card list)"
proof -
  let ?U = "\<lambda>(s::ustr) (i::nat). [s ! i]" and ?W = "\<lambda>c::cp. False"
    and ?D = "\<lambda>c::cp. (None::nat option)" and ?R = "\<lambda>r::rat. r"
  let ?b = "ascii ''## A'' @ [10] @ ascii ''- App Pulls: y'' @ [10] @
            ascii ''- Technical: Solfeggio = 5..8''"
  have ev: "field ?b (ascii ''App Pulls'') = ascii ''y''"
    "field ?b (ascii ''Technical'') = ascii ''Solfeggio = 5..8''"
    by (simp_all add: eval_field)
  have pf: "prefix (ascii ''## '') ?b"
    by (simp add: ascii_def)
  have ne: "ascii ''y'' \<noteq> []"
    by (simp add: ascii_def)
  have fr: "freq_of ?U ?D ?R (ascii ''Solfeggio = 5..8'') ray = Inl ValueError" for ray
    by (simp add: eval_freq)
  have 1: "card_of ?U ?W ?D ?R ?b = Inl ValueError"
    using card_of_gate(2) [OF pf, of ?U ?D ?R ValueError ?W] ev ne fr by simp
  have bl: "blocks ?b = [?b]"
    by (simp add: eval_blocks)
  have 2: "compile ?U ?W ?D ?R (Inr ?b) True True = Inl ValueError"
    using 1 bl by (simp add: compile_def)
  have e: "?b = (ascii ''## A'' @ [10]) @ 45 # ascii '' '' @ ascii ''App Pulls'' @ 58 #
             ascii '' '' @ 121 # ([10] @ ascii ''- Technical: Solfeggio = 5..8'')"
    by (simp add: ascii_def)
  have sp: "list_all is_space (ascii '' '')" "10 \<notin> set (ascii '' '')" "\<not> is_space 121"
    by (simp_all add: ascii_def is_space_def)
  have 3: "has_app_pulls ?b"
    unfolding has_app_pulls_def using e sp by blast
  from bl ev(1) 1 2 3 show ?thesis
    by simp
qed

end
